theory Spec2Isabelle
  imports Main
begin

section \<open>Constants\<close>

text \<open>
  The source's \<^verbatim>\<open>#define MAX 400\<close> (the size of the station table, of every row of the
  adjacency matrix, of the BFS queue and of every path buffer) and
  \<^verbatim>\<open>#define MAX_ALTERNATES 3\<close>. \<open>MAX\<close> is reserved syntax of HOL, hence the suffix.
\<close>

definition MAX_STATIONS :: nat where
  "MAX_STATIONS = 400"

definition MAX_ALTERNATES :: nat where
  "MAX_ALTERNATES = 3"

section \<open>Characters and strings\<close>

text \<open>
  A C string is modelled by its characters before the terminating NUL, as a \<open>char list\<close>.
  The program never calls \<^verbatim>\<open>setlocale\<close>, so the \<^verbatim>\<open>ctype.h\<close> predicates are those
  of the "C" locale, on the byte value of the character (the source casts to
  \<^verbatim>\<open>unsigned char\<close> first).
\<close>

definition isupper :: "char \<Rightarrow> bool" where
  "isupper c = (let n = (of_char c :: nat) in 65 \<le> n \<and> n \<le> 90)"

definition islower :: "char \<Rightarrow> bool" where
  "islower c = (let n = (of_char c :: nat) in 97 \<le> n \<and> n \<le> 122)"

definition isdigit :: "char \<Rightarrow> bool" where
  "isdigit c = (let n = (of_char c :: nat) in 48 \<le> n \<and> n \<le> 57)"

definition isalpha :: "char \<Rightarrow> bool" where
  "isalpha c = (isupper c \<or> islower c)"

definition isalnum :: "char \<Rightarrow> bool" where
  "isalnum c = (isalpha c \<or> isdigit c)"

definition isspace :: "char \<Rightarrow> bool" where
  "isspace c = (let n = (of_char c :: nat) in n = 32 \<or> (9 \<le> n \<and> n \<le> 13))"

definition tolower :: "char \<Rightarrow> char" where
  "tolower c = (if isupper c then char_of ((of_char c :: nat) + 32) else c)"

text \<open>\<^verbatim>\<open>lowercase(s)\<close>: every character through \<^verbatim>\<open>tolower\<close>.\<close>

definition lowercase :: "string \<Rightarrow> string" where
  "lowercase s = map tolower s"

subsection \<open>\<^verbatim>\<open>normalize_inplace\<close>\<close>

text \<open>Step 1: the first loop copies the characters that are alphanumeric or white space.\<close>

definition keep_alnum_space :: "string \<Rightarrow> string" where
  "keep_alnum_space s = filter (\<lambda>c. isalnum c \<or> isspace c) s"

text \<open>
  Step 2: skip the leading white space, then copy, writing one \<^verbatim>\<open>' '\<close> for the first
  white-space character of a run (the flag \<^verbatim>\<open>last_space\<close>), and drop one trailing
  space.
\<close>

fun collapse :: "bool \<Rightarrow> string \<Rightarrow> string" where
  "collapse last_space [] = []"
| "collapse last_space (c # cs) =
     (if isspace c
      then (if \<not> last_space then CHR '' '' # collapse True cs else collapse True cs)
      else c # collapse False cs)"

definition drop_trailing_space :: "string \<Rightarrow> string" where
  "drop_trailing_space t = (if t \<noteq> [] \<and> last t = CHR '' '' then butlast t else t)"

definition collapse_spaces :: "string \<Rightarrow> string" where
  "collapse_spaces t = drop_trailing_space (collapse False (dropWhile isspace t))"

text \<open>
  Step 3: the \<^verbatim>\<open>while (tmp2[i])\<close> loop. At a letter followed by a space and a letter it
  copies the two letters and moves three characters on; otherwise it copies one
  character. The source tests only these three characters: it does not look at the
  character before the first letter or after the second.
\<close>

fun combine :: "string \<Rightarrow> string" where
  "combine (a # b # c # rest) =
     (if isalpha a \<and> b = CHR '' '' \<and> isalpha c
      then a # c # combine rest
      else a # combine (b # c # rest))"
| "combine (a # rest) = a # combine rest"
| "combine [] = []"

text \<open>
  The whole function, with the final \<^verbatim>\<open>strncpy(s, tmp3, 79)\<close>. The three work buffers
  hold 80 bytes and the source does not check their bounds; every caller passes a
  string of at most 79 characters (it copies with \<^verbatim>\<open>strncpy(key, ..., 79)\<close> first), and
  on those no step writes past a buffer, since no step lengthens the string.
\<close>

definition normalize_inplace :: "string \<Rightarrow> string" where
  "normalize_inplace s =
     take 79 (lowercase (combine (collapse_spaces (keep_alnum_space s))))"

section \<open>Stations and the network\<close>

text \<open>
  \<^verbatim>\<open>Station\<close>: \<^verbatim>\<open>line_count\<close> is the length of \<open>lines\<close>. The globals
  \<^verbatim>\<open>stations[MAX]\<close>, \<^verbatim>\<open>stationCount\<close> and \<^verbatim>\<open>adj[MAX][MAX]\<close> are the state: the
  entries \<^verbatim>\<open>stations[0 .. stationCount - 1]\<close> are the list \<open>stations\<close>, so that
  \<^verbatim>\<open>stationCount\<close> is its length.
\<close>

record station =
  display_name :: string
  key_name :: string
  lines :: "string list"
  planned :: int

record network =
  stations :: "station list"
  adj :: "nat \<Rightarrow> nat \<Rightarrow> int"

definition stationCount :: "network \<Rightarrow> nat" where
  "stationCount g = length (stations g)"

text \<open>
  The source tests no index against the size of a table. A call that would write past
  a table has no defined result in C; in the model it returns which table it leaves:
  \<^verbatim>\<open>stations[MAX]\<close>, the six slots \<^verbatim>\<open>lines[6]\<close> of a station, or the array
  \<^verbatim>\<open>ids[MAX]\<close> of \<^verbatim>\<open>add_line_with_plan\<close>. \<open>NotAStation\<close> is a read of an entry at or
  after \<^verbatim>\<open>stationCount\<close>, which the model does not hold.
\<close>

datatype out_of_bounds = WritePastStations | WritePastLines | WritePastIds | NotAStation

text \<open>The search loop of \<^verbatim>\<open>find_or_add_by_key_with_plan\<close>: the first index whose key matches.\<close>

fun find_key :: "station list \<Rightarrow> string \<Rightarrow> nat \<Rightarrow> nat option" where
  "find_key [] key i = None"
| "find_key (s # ss) key i = (if key_name s = key then Some i else find_key ss key (Suc i))"

text \<open>
  The trimming of the display name: \<open>s\<close> is the index of the first character that is
  not white space, \<open>e1\<close> is one more than the index \<^verbatim>\<open>e\<close> of the last one.
\<close>

definition trim_display :: "string \<Rightarrow> string" where
  "trim_display display =
     (let tmp = take 79 display;
          s = length (takeWhile isspace tmp);
          e1 = length tmp - length (takeWhile isspace (rev tmp))
      in if s < e1 then take (min 79 (e1 - s)) (drop s tmp) else [])"

text \<open>
  \<^verbatim>\<open>find_or_add_by_key_with_plan\<close> returns the id and the new state. The new entry is
  \<^verbatim>\<open>stations[stationCount]\<close>: inside the table when \<^verbatim>\<open>stationCount < MAX\<close>, and a
  write past it otherwise (the source has no such test: the test of the model tells
  the two apart).
\<close>

definition find_or_add_by_key_with_plan ::
  "string \<Rightarrow> string \<Rightarrow> int \<Rightarrow> network \<Rightarrow> out_of_bounds + nat \<times> network" where
  "find_or_add_by_key_with_plan key display pl g =
     (case find_key (stations g) key 0 of
        Some i \<Rightarrow> Inr (i, g)
      | None \<Rightarrow>
          if stationCount g < MAX_STATIONS
          then Inr (stationCount g,
                 g\<lparr>stations := stations g @
                     [\<lparr>display_name = trim_display display, key_name = take 79 key,
                       lines = [], planned = pl\<rparr>]\<rparr>)
          else Inl WritePastStations)"

text \<open>
  \<^verbatim>\<open>add_line_tag\<close>: the name is compared as given and stored through
  \<^verbatim>\<open>strncpy(..., line, 29)\<close> in \<^verbatim>\<open>lines[line_count]\<close>: one of the six slots when
  \<^verbatim>\<open>line_count < 6\<close>, and a write past them otherwise (over \<^verbatim>\<open>planned\<close> and the next
  station; again the source has no such test).
\<close>

definition add_line_tag :: "nat \<Rightarrow> string \<Rightarrow> network \<Rightarrow> out_of_bounds + network" where
  "add_line_tag i line g =
     (if i < stationCount g
      then (let st = stations g ! i
            in if line \<in> set (lines st) then Inr g
               else if length (lines st) < 6
               then Inr (g\<lparr>stations := (stations g)[i := st\<lparr>lines := lines st @ [take 29 line]\<rparr>]\<rparr>)
               else Inl WritePastLines)
      else Inl NotAStation)"

text \<open>\<^verbatim>\<open>connect_ids\<close>, on C's signed ids.\<close>

definition connect_ids :: "int \<Rightarrow> int \<Rightarrow> network \<Rightarrow> network" where
  "connect_ids a b g =
     (if a < 0 \<or> b < 0 \<or> a = b then g
      else (let adj1 = (adj g)(nat a := (adj g (nat a))(nat b := 1));
                adj2 = adj1(nat b := (adj1 (nat b))(nat a := 1))
            in g\<lparr>adj := adj2\<rparr>))"

text \<open>
  The body of the first loop of \<^verbatim>\<open>add_line_with_plan\<close> for one name: the two
  \<^verbatim>\<open>strncpy(..., list[i], 79)\<close>, the normalisation of the key and the registration.
\<close>

definition register_station ::
  "string \<Rightarrow> int \<Rightarrow> network \<Rightarrow> out_of_bounds + nat \<times> network" where
  "register_station raw pl g =
     find_or_add_by_key_with_plan (normalize_inplace (take 79 raw)) (take 79 raw) pl g"

text \<open>
  \<^verbatim>\<open>add_line_with_plan\<close>: \<open>planned_flags\<close> is \<open>None\<close> for the null pointer. One round
  of the first loop registers the name \<open>i\<close>, stores the id in \<^verbatim>\<open>ids[i]\<close> and tags the
  station; the second loop connects consecutive ids.
\<close>

definition add_line_station ::
  "string \<Rightarrow> string list \<Rightarrow> int list option \<Rightarrow> nat list \<times> network \<Rightarrow> nat \<Rightarrow>
   out_of_bounds + nat list \<times> network" where
  "add_line_station lineName list planned_flags acc i =
     (let (ids, g) = acc
      in case register_station (list ! i)
                (case planned_flags of None \<Rightarrow> 0 | Some fl \<Rightarrow> fl ! i) g of
           Inl f \<Rightarrow> Inl f
         | Inr (k, g1) \<Rightarrow>
             if i < MAX_STATIONS
             then (case add_line_tag k lineName g1 of
                     Inl f \<Rightarrow> Inl f
                   | Inr g2 \<Rightarrow> Inr (ids @ [k], g2))
             else Inl WritePastIds)"

fun add_line_stations ::
  "string \<Rightarrow> string list \<Rightarrow> int list option \<Rightarrow> nat list \<Rightarrow> nat list \<times> network \<Rightarrow>
   out_of_bounds + nat list \<times> network" where
  "add_line_stations lineName list planned_flags [] acc = Inr acc"
| "add_line_stations lineName list planned_flags (i # rest) acc =
     (case add_line_station lineName list planned_flags acc i of
        Inl f \<Rightarrow> Inl f
      | Inr acc' \<Rightarrow> add_line_stations lineName list planned_flags rest acc')"

definition connect_line :: "nat list \<Rightarrow> network \<Rightarrow> nat \<Rightarrow> network" where
  "connect_line ids g i = connect_ids (int (ids ! i)) (int (ids ! (i + 1))) g"

definition add_line_with_plan ::
  "string \<Rightarrow> string list \<Rightarrow> int list option \<Rightarrow> network \<Rightarrow> out_of_bounds + network" where
  "add_line_with_plan lineName list planned_flags g =
     (let n = length list
      in case add_line_stations lineName list planned_flags [0..<n] ([], g) of
           Inl f \<Rightarrow> Inl f
         | Inr (ids, g1) \<Rightarrow> Inr (foldl (connect_line ids) g1 [0..<n - 1]))"

text \<open>The station lists of \<^verbatim>\<open>build_network\<close>.\<close>

definition purple :: "string list" where
  "purple =
     [''challaghatta'', ''kengeri'', ''Kengeri Bus Terminal'', ''Pattanagere'', ''Jnanbharati'',
      ''Rajarajeshwari Nagar'', ''Nayandahalli'', ''mysore road'', ''deepanjali nagar'',
      ''attiguppe'', ''vijayanagar'', ''Hosahalli'', ''magadi road'', ''majestic'',
      ''Central Road'', ''Vidhana Soudha'', ''Cubbon Park'', ''m.g. road'', ''trinity'',
      ''halasuru'', ''indiranagar'', ''swami vivekananda road'', ''baiyappanahalli'',
      ''Benniganahalli'', ''kr puram'', ''Singayyanapalya'', ''Garudacharpalaya'', ''hoodi'',
      ''Seetharampalya'', ''Kundalahalli'', ''Nallurhalli'', ''Sri Satya Sai Hospital'',
      ''Pattandur Agrahara'', ''Kadugodi Tree Park'', ''Channasandra(HopeFarm)'',
      ''whitefield(Kadugodi)'']"

definition green :: "string list" where
  "green =
     [''Madavara'', ''Chikkabidarakallu'', ''Manjunathanagar'', ''nagasandra'', ''Dasarhalli'',
      ''Jalahalli'', ''Peenya Industry'', ''Peenya'', ''Gorguntepalya'', ''Yeswantpur'',
      ''Sandal Soap Factory'', ''Mahalakshmi'', ''Rajijnagar'', ''Kuvempu road'',
      ''Srirampura'', ''Sampige Road'', ''majestic'', ''Chickpete'',
      ''Krishna Rajendra Market'', ''National College'', ''Lalbagh'', ''South End Circle'',
      ''Jayanagar'', ''Rashtreeya Vidyalaya Road'', ''Banashankari'', ''jayadeva hospital'',
      ''Yelachenahalli'', ''Konanakunte Cross'', ''Vajarahalli'', ''Thalaghattapura'',
      ''Silk Institute'']"

definition pink :: "string list" where
  "pink =
     [''kalena agrahara'', ''hulimavu'', ''iim bangalore'', ''jp nagar 4th phase'',
      ''jayadeva hospital'', ''Tavarekere'', ''dairy circle'', ''lakkasandra'',
      ''langford town'', ''rashtriya military school'', ''mg road'', ''shivajinagar'',
      ''Cantonment'', ''Pottery Town'', ''tannery road'', ''Venkateshpura'',
      ''kadugundanahalli'', ''nagawara'']"

text \<open>
  \<^verbatim>\<open>build_network\<close> resets the count and the matrix and adds the three lines, every
  planned flag 0; \<^verbatim>\<open>include_planned\<close> is not used.
\<close>

definition build_network :: "int \<Rightarrow> network \<Rightarrow> out_of_bounds + network" where
  "build_network include_planned g =
     (let g0 = g\<lparr>stations := [], adj := (\<lambda>i j. 0)\<rparr>
      in case add_line_with_plan ''purple'' purple (Some (replicate (length purple) 0)) g0 of
           Inl f \<Rightarrow> Inl f
         | Inr g1 \<Rightarrow>
             (case add_line_with_plan ''green'' green (Some (replicate (length green) 0)) g1 of
                Inl f \<Rightarrow> Inl f
              | Inr g2 \<Rightarrow>
                  add_line_with_plan ''pink'' pink (Some (replicate (length pink) 0)) g2))"

text \<open>The state with no station and no edge.\<close>

definition empty_network :: network where
  "empty_network = \<lparr>stations = [], adj = (\<lambda>i j. 0)\<rparr>"

section \<open>Normalisation of the three documented spellings\<close>

text \<open>
  C2. The source's comment on \<^verbatim>\<open>normalize_inplace\<close> says that "M.G. Road", "mg road" and
  "M G ROAD" become the same key. Evaluated on the code, the first two become
  \<open>mgroad\<close> (step 3 joins the \<open>g\<close> that ends one word to the \<open>r\<close> that starts the next)
  and the third becomes \<open>mg road\<close>: the three keys are not equal.
\<close>

theorem normalize_three_spellings:
  "normalize_inplace ''M.G. Road'' = ''mgroad'' \<and>
   normalize_inplace ''mg road'' = ''mgroad'' \<and>
   normalize_inplace ''M G ROAD'' = ''mg road''"
  by code_simp

text \<open>
  C3. Normalising twice is not normalising once: on \<open>m g road\<close>, a string of letters
  and spaces only, the first pass gives \<open>mg road\<close> and the second \<open>mgroad\<close>.
\<close>

theorem normalize_twice_differs:
  "normalize_inplace ''m g road'' = ''mg road'' \<and>
   normalize_inplace (normalize_inplace ''m g road'') = ''mgroad''"
  by code_simp

section \<open>What a call keeps\<close>


lemma find_key_Some_bounds: "find_key ss key i = Some k \<Longrightarrow> i \<le> k \<and> k < i + length ss"
proof (induction ss arbitrary: i)
  case Nil
  then show ?case by simp
next
  case (Cons a ss)
  show ?case
  proof (cases "key_name a = key")
    case True
    with Cons.prems show ?thesis by simp
  next
    case False
    with Cons.prems have "find_key ss key (Suc i) = Some k" by simp
    from Cons.IH [OF this] show ?thesis by simp
  qed
qed



text \<open>The two ways a registration returns: the key was there, or a new entry inside the table.\<close>

lemma find_or_add_cases:
  assumes "find_or_add_by_key_with_plan key d p g = Inr (k, g1)"
  shows "(find_key (stations g) key 0 = Some k \<and> g1 = g) \<or>
    (find_key (stations g) key 0 = None \<and> k = stationCount g \<and> stationCount g < MAX_STATIONS \<and>
     g1 = g\<lparr>stations := stations g @
            [\<lparr>display_name = trim_display d, key_name = take 79 key, lines = [], planned = p\<rparr>]\<rparr>)"
  using assms by (auto simp: find_or_add_by_key_with_plan_def split: option.splits if_splits)

lemma find_or_add_succeeds:
  assumes "stationCount g < MAX_STATIONS"
  shows "\<exists>k g1. find_or_add_by_key_with_plan key d p g = Inr (k, g1)"
  using assms by (simp add: find_or_add_by_key_with_plan_def split: option.splits)

lemma find_or_add_facts:
  assumes "find_or_add_by_key_with_plan key d p g = Inr (k, g1)"
  shows "adj g1 = adj g" and "k < stationCount g1" and "stationCount g \<le> stationCount g1"
    and "stationCount g1 \<le> stationCount g + 1"
    and "stationCount g \<le> MAX_STATIONS \<Longrightarrow> stationCount g1 \<le> MAX_STATIONS"
proof -
  from find_or_add_cases [OF assms] consider
    (old) "find_key (stations g) key 0 = Some k" "g1 = g"
  | (new) "k = stationCount g" "stationCount g < MAX_STATIONS"
     "g1 = g\<lparr>stations := stations g @
            [\<lparr>display_name = trim_display d, key_name = take 79 key, lines = [], planned = p\<rparr>]\<rparr>"
    by blast
  then have "adj g1 = adj g \<and> k < stationCount g1 \<and> stationCount g \<le> stationCount g1 \<and>
    stationCount g1 \<le> stationCount g + 1 \<and>
    (stationCount g \<le> MAX_STATIONS \<longrightarrow> stationCount g1 \<le> MAX_STATIONS)"
  proof cases
    case old
    with find_key_Some_bounds [OF old(1)] show ?thesis by (simp add: stationCount_def)
  next
    case new
    then show ?thesis by (simp add: stationCount_def)
  qed
  then show "adj g1 = adj g" and "k < stationCount g1" and "stationCount g \<le> stationCount g1"
    and "stationCount g1 \<le> stationCount g + 1"
    and "stationCount g \<le> MAX_STATIONS \<Longrightarrow> stationCount g1 \<le> MAX_STATIONS" by simp_all
qed

text \<open>The two ways a tagging returns: the name was there, or it goes into a free slot.\<close>

lemma add_line_tag_cases:
  assumes "add_line_tag i l g = Inr g'"
  shows "i < stationCount g \<and>
    ((l \<in> set (lines (stations g ! i)) \<and> g' = g) \<or>
     (l \<notin> set (lines (stations g ! i)) \<and> length (lines (stations g ! i)) < 6 \<and>
      g' = g\<lparr>stations := (stations g)
              [i := (stations g ! i)\<lparr>lines := lines (stations g ! i) @ [take 29 l]\<rparr>]\<rparr>))"
  using assms by (auto simp: add_line_tag_def Let_def split: if_splits)

lemma add_line_tag_facts:
  assumes "add_line_tag i l g = Inr g'"
  shows "adj g' = adj g" and "stationCount g' = stationCount g" and "i < stationCount g"
  using add_line_tag_cases [OF assms] by (auto simp: stationCount_def)



text \<open>The stations of the new state are those of the old one, but for the lines of one.\<close>

lemma add_line_tag_station:
  assumes "add_line_tag i l g = Inr g'" and "st \<in> set (stations g')"
  shows "st \<in> set (stations g) \<or>
         (l \<notin> set (lines (stations g ! i)) \<and> length (lines (stations g ! i)) < 6 \<and>
          stations g ! i \<in> set (stations g) \<and>
          st = (stations g ! i)\<lparr>lines := lines (stations g ! i) @ [take 29 l]\<rparr>)"
proof -
  from add_line_tag_cases [OF assms(1)] have i: "i < length (stations g)"
    and c: "(l \<in> set (lines (stations g ! i)) \<and> g' = g) \<or>
     (l \<notin> set (lines (stations g ! i)) \<and> length (lines (stations g ! i)) < 6 \<and>
      g' = g\<lparr>stations := (stations g)
              [i := (stations g ! i)\<lparr>lines := lines (stations g ! i) @ [take 29 l]\<rparr>]\<rparr>)"
    by (simp_all add: stationCount_def)
  from c show ?thesis
  proof
    assume "l \<in> set (lines (stations g ! i)) \<and> g' = g"
    with assms(2) show ?thesis by simp
  next
    assume n: "l \<notin> set (lines (stations g ! i)) \<and> length (lines (stations g ! i)) < 6 \<and>
      g' = g\<lparr>stations := (stations g)
              [i := (stations g ! i)\<lparr>lines := lines (stations g ! i) @ [take 29 l]\<rparr>]\<rparr>"
    with assms(2) have "st \<in> set ((stations g)
              [i := (stations g ! i)\<lparr>lines := lines (stations g ! i) @ [take 29 l]\<rparr>])" by simp
    then have "st = (stations g ! i)\<lparr>lines := lines (stations g ! i) @ [take 29 l]\<rparr> \<or>
        st \<in> set (stations g)"
      using set_update_subset_insert by fastforce
    with n i show ?thesis by auto
  qed
qed

section \<open>Invariants of a build\<close>

text \<open>The edge relation is symmetric and no station is connected to itself.\<close>

definition graph_inv :: "network \<Rightarrow> bool" where
  "graph_inv g = ((\<forall>a b. adj g a b = adj g b a) \<and> (\<forall>a. adj g a a = 0))"

text \<open>Every edge joins two stations of the table.\<close>

definition edges_in_range :: "network \<Rightarrow> bool" where
  "edges_in_range g = (\<forall>a b. adj g a b \<noteq> 0 \<longrightarrow> a < stationCount g \<and> b < stationCount g)"

text \<open>
  A line name in the table is a \<^verbatim>\<open>char[30]\<close>: it has at most 29 characters.
\<close>

definition names_fit :: "network \<Rightarrow> bool" where
  "names_fit g = (\<forall>st \<in> set (stations g). \<forall>l \<in> set (lines st). length l \<le> 29)"

text \<open>No station lists a line twice.\<close>

definition lines_distinct :: "network \<Rightarrow> bool" where
  "lines_distinct g = (\<forall>st \<in> set (stations g). distinct (lines st))"

text \<open>Every station's lines are among the names \<open>L\<close>.\<close>

definition lines_among :: "string set \<Rightarrow> network \<Rightarrow> bool" where
  "lines_among L g = (\<forall>st \<in> set (stations g). set (lines st) \<subseteq> L)"

text \<open>
  A network within the bound of its tables whose edges join stations of the table, as
  \<^verbatim>\<open>add_line_with_plan\<close> builds them.
\<close>

definition wf_network :: "network \<Rightarrow> bool" where
  "wf_network g =
     (stationCount g \<le> MAX_STATIONS \<and>
      (\<forall>a b. adj g a b \<noteq> 0 \<longrightarrow> a < stationCount g \<and> b < stationCount g))"

lemma connect_ids_graph_inv: "graph_inv g \<Longrightarrow> graph_inv (connect_ids a b g)"
  unfolding graph_inv_def connect_ids_def Let_def
  by (auto simp: fun_upd_def)

lemma graph_inv_cong: "adj g' = adj g \<Longrightarrow> graph_inv g \<Longrightarrow> graph_inv g'"
  by (simp add: graph_inv_def)

lemma foldl_connect_graph_inv:
  "graph_inv g \<Longrightarrow> graph_inv (foldl (connect_line ids) g is)"
  by (induction "is" arbitrary: g) (simp_all add: connect_line_def connect_ids_graph_inv)

subsection \<open>Registration and tagging\<close>

lemma find_or_add_stations:
  assumes "find_or_add_by_key_with_plan key d p g = Inr (k, g1)" and "st \<in> set (stations g1)"
  shows "st \<in> set (stations g) \<or> lines st = []"
  using find_or_add_cases [OF assms(1)] assms(2) by auto

lemma find_or_add_keeps_lines:
  assumes "find_or_add_by_key_with_plan key d p g = Inr (k, g1)"
  shows "names_fit g \<Longrightarrow> names_fit g1" and "lines_distinct g \<Longrightarrow> lines_distinct g1"
    and "lines_among L g \<Longrightarrow> lines_among L g1"
  using find_or_add_stations [OF assms]
  unfolding names_fit_def lines_distinct_def lines_among_def by fastforce+

lemma add_line_tag_names_fit:
  assumes "add_line_tag i l g = Inr g'" and "names_fit g"
  shows "names_fit g'"
  unfolding names_fit_def
proof (intro ballI)
  fix st n
  assume st: "st \<in> set (stations g')" and n: "n \<in> set (lines st)"
  from add_line_tag_station [OF assms(1) st] show "length n \<le> 29"
  proof
    assume "st \<in> set (stations g)"
    with assms(2) n show ?thesis by (auto simp: names_fit_def)
  next
    assume a: "l \<notin> set (lines (stations g ! i)) \<and> length (lines (stations g ! i)) < 6 \<and>
          stations g ! i \<in> set (stations g) \<and>
          st = (stations g ! i)\<lparr>lines := lines (stations g ! i) @ [take 29 l]\<rparr>"
    with n have "n \<in> set (lines (stations g ! i)) \<or> n = take 29 l" by auto
    with a assms(2) show ?thesis by (auto simp: names_fit_def)
  qed
qed

lemma add_line_tag_lines_distinct:
  assumes "add_line_tag i l g = Inr g'" and "lines_distinct g" and "length l \<le> 29"
  shows "lines_distinct g'"
  unfolding lines_distinct_def
proof (intro ballI)
  fix st
  assume st: "st \<in> set (stations g')"
  from add_line_tag_station [OF assms(1) st] show "distinct (lines st)"
  proof
    assume "st \<in> set (stations g)"
    with assms(2) show ?thesis by (auto simp: lines_distinct_def)
  next
    assume a: "l \<notin> set (lines (stations g ! i)) \<and> length (lines (stations g ! i)) < 6 \<and>
          stations g ! i \<in> set (stations g) \<and>
          st = (stations g ! i)\<lparr>lines := lines (stations g ! i) @ [take 29 l]\<rparr>"
    with assms(2) have "distinct (lines (stations g ! i))" by (auto simp: lines_distinct_def)
    with a assms(3) show ?thesis by simp
  qed
qed

lemma add_line_tag_lines_among:
  assumes "add_line_tag i l g = Inr g'" and "lines_among L g" and "length l \<le> 29" and "l \<in> L"
  shows "lines_among L g'"
  unfolding lines_among_def
proof (intro ballI)
  fix st
  assume st: "st \<in> set (stations g')"
  from add_line_tag_station [OF assms(1) st] show "set (lines st) \<subseteq> L"
  proof
    assume "st \<in> set (stations g)"
    with assms(2) show ?thesis by (auto simp: lines_among_def)
  next
    assume a: "l \<notin> set (lines (stations g ! i)) \<and> length (lines (stations g ! i)) < 6 \<and>
          stations g ! i \<in> set (stations g) \<and>
          st = (stations g ! i)\<lparr>lines := lines (stations g ! i) @ [take 29 l]\<rparr>"
    with assms(2) have "set (lines (stations g ! i)) \<subseteq> L" by (auto simp: lines_among_def)
    with a assms(3,4) show ?thesis by simp
  qed
qed

text \<open>
  A station whose lines are distinct names among at most six has a free slot for one
  more of them.
\<close>

lemma add_line_tag_succeeds:
  assumes i: "i < stationCount g" and d: "lines_distinct g" and a: "lines_among L g"
    and L: "finite L" "card L \<le> 6" and l: "l \<in> L"
  shows "\<exists>g'. add_line_tag i l g = Inr g'"
proof (cases "l \<in> set (lines (stations g ! i))")
  case True
  with i show ?thesis by (simp add: add_line_tag_def Let_def)
next
  case False
  from i have m: "stations g ! i \<in> set (stations g)" by (simp add: stationCount_def)
  with d a have ds: "distinct (lines (stations g ! i))" and sub: "set (lines (stations g ! i)) \<subseteq> L"
    by (auto simp: lines_distinct_def lines_among_def)
  from sub False l have "set (lines (stations g ! i)) \<subset> L" by blast
  with L(1) have "card (set (lines (stations g ! i))) < card L" by (rule psubset_card_mono)
  with ds L(2) have "length (lines (stations g ! i)) < 6" by (simp add: distinct_card)
  with i False show ?thesis by (simp add: add_line_tag_def Let_def)
qed

subsection \<open>The first loop of \<^verbatim>\<open>add_line_with_plan\<close>\<close>

lemma add_line_station_cases:
  assumes "add_line_station ln list pf (ids, g) i = Inr (ids', g')"
  shows "\<exists>k g1. register_station (list ! i) (case pf of None \<Rightarrow> 0 | Some fl \<Rightarrow> fl ! i) g = Inr (k, g1) \<and>
    i < MAX_STATIONS \<and> add_line_tag k ln g1 = Inr g' \<and> ids' = ids @ [k]"
  using assms by (auto simp: add_line_station_def split: sum.splits if_splits prod.splits)

text \<open>What a successful round keeps.\<close>

definition line_acc_ok :: "network \<Rightarrow> nat list \<times> network \<Rightarrow> bool" where
  "line_acc_ok g0 acc =
     (adj (snd acc) = adj g0 \<and> (\<forall>k \<in> set (fst acc). k < stationCount (snd acc)) \<and>
      stationCount g0 \<le> stationCount (snd acc) \<and>
      stationCount (snd acc) \<le> stationCount g0 + length (fst acc) \<and>
      (stationCount g0 \<le> MAX_STATIONS \<longrightarrow> stationCount (snd acc) \<le> MAX_STATIONS) \<and>
      (names_fit g0 \<longrightarrow> names_fit (snd acc)))"

lemma line_acc_step:
  assumes ok: "line_acc_ok g0 acc" and s: "add_line_station ln list pf acc i = Inr acc'"
  shows "line_acc_ok g0 acc' \<and> length (fst acc') = Suc (length (fst acc))"
proof -
  obtain ids g where acc: "acc = (ids, g)" by (cases acc)
  obtain ids' g' where acc': "acc' = (ids', g')" by (cases acc')
  from add_line_station_cases [OF s [unfolded acc acc']] obtain k g1 where
    r: "find_or_add_by_key_with_plan (normalize_inplace (take 79 (list ! i))) (take 79 (list ! i))
          (case pf of None \<Rightarrow> 0 | Some fl \<Rightarrow> fl ! i) g = Inr (k, g1)"
    and t: "add_line_tag k ln g1 = Inr g'" and i: "ids' = ids @ [k]"
    unfolding register_station_def by blast
  note f = find_or_add_facts [OF r]
  note tf = add_line_tag_facts [OF t]
  from ok acc have a: "adj g = adj g0" "\<forall>k \<in> set ids. k < stationCount g"
    "stationCount g0 \<le> stationCount g" "stationCount g \<le> stationCount g0 + length ids"
    "stationCount g0 \<le> MAX_STATIONS \<longrightarrow> stationCount g \<le> MAX_STATIONS"
    "names_fit g0 \<longrightarrow> names_fit g" by (simp_all add: line_acc_ok_def)
  have 1: "adj g' = adj g0" using a(1) f(1) tf(1) by simp
  have 2: "\<forall>x \<in> set ids'. x < stationCount g'"
    using a(2) f(2,3) tf(2) i by fastforce
  have 3: "stationCount g0 \<le> stationCount g'" "stationCount g' \<le> stationCount g0 + length ids'"
    using a(3,4) f(3,4) tf(2) i by simp_all
  have 4: "stationCount g0 \<le> MAX_STATIONS \<longrightarrow> stationCount g' \<le> MAX_STATIONS"
    using a(5) f(5) tf(2) by simp
  have 5: "names_fit g0 \<longrightarrow> names_fit g'"
    using a(6) find_or_add_keeps_lines(1) [OF r] add_line_tag_names_fit [OF t] by blast
  from 1 2 3 4 5 i show ?thesis by (simp add: line_acc_ok_def acc' acc)
qed

lemma line_acc_all:
  "line_acc_ok g0 acc \<Longrightarrow> add_line_stations ln list pf is acc = Inr acc' \<Longrightarrow>
   line_acc_ok g0 acc' \<and> length (fst acc') = length (fst acc) + length is"
proof (induction "is" arbitrary: acc)
  case Nil
  then show ?case by simp
next
  case (Cons i rest)
  from Cons.prems(2) obtain a where s: "add_line_station ln list pf acc i = Inr a"
    and r: "add_line_stations ln list pf rest a = Inr acc'"
    by (auto split: sum.splits)
  from line_acc_step [OF Cons.prems(1) s] have "line_acc_ok g0 a"
    "length (fst a) = Suc (length (fst acc))" by simp_all
  with Cons.IH [OF this(1) r] show ?case by simp
qed

lemma line_acc_start: "line_acc_ok g ([], g)"
  by (simp add: line_acc_ok_def)


lemma add_line_stations_succeeds:
  assumes L: "finite L" "card L \<le> 6" "ln \<in> L" "length ln \<le> 29"
  shows "lines_distinct g \<Longrightarrow> lines_among L g \<Longrightarrow>
    stationCount g + length is \<le> MAX_STATIONS \<Longrightarrow> \<forall>i \<in> set is. i < MAX_STATIONS \<Longrightarrow>
    \<exists>ids' g'. add_line_stations ln list pf is (ids, g) = Inr (ids', g') \<and>
       lines_distinct g' \<and> lines_among L g'"
proof (induction "is" arbitrary: ids g)
  case Nil
  then show ?case by simp
next
  case (Cons i rest)
  from Cons.prems(3) have c: "stationCount g < MAX_STATIONS" by simp
  from find_or_add_succeeds [OF c] obtain k g1 where
    r: "find_or_add_by_key_with_plan (normalize_inplace (take 79 (list ! i))) (take 79 (list ! i))
          (case pf of None \<Rightarrow> 0 | Some fl \<Rightarrow> fl ! i) g = Inr (k, g1)" by blast
  note f = find_or_add_facts [OF r]
  note kl = find_or_add_keeps_lines [OF r]
  from kl(2) Cons.prems(1) have d1: "lines_distinct g1" by simp
  from kl(3) Cons.prems(2) have a1: "lines_among L g1" by simp
  from add_line_tag_succeeds [OF f(2) d1 a1 L(1,2,3)] obtain g2 where
    t: "add_line_tag k ln g1 = Inr g2" by blast
  from Cons.prems(4) have i: "i < MAX_STATIONS" by simp
  have s: "add_line_station ln list pf (ids, g) i = Inr (ids @ [k], g2)"
    using r t i by (simp add: add_line_station_def register_station_def)
  have d2: "lines_distinct g2" using add_line_tag_lines_distinct [OF t d1 L(4)] .
  have a2: "lines_among L g2" using add_line_tag_lines_among [OF t a1 L(4) L(3)] .
  have c2: "stationCount g2 + length rest \<le> MAX_STATIONS"
    using f(4) add_line_tag_facts(2) [OF t] Cons.prems(3) by simp
  from Cons.prems(4) have r2: "\<forall>i \<in> set rest. i < MAX_STATIONS" by simp
  from Cons.IH [OF d2 a2 c2 r2, of "ids @ [k]"] s show ?case by simp
qed

subsection \<open>\<^verbatim>\<open>add_line_with_plan\<close>\<close>

lemma connect_ids_in_range:
  assumes "edges_in_range g" and "a < stationCount g" and "b < stationCount g"
  shows "edges_in_range (connect_ids (int a) (int b) g) \<and>
         stations (connect_ids (int a) (int b) g) = stations g"
  using assms unfolding edges_in_range_def connect_ids_def Let_def stationCount_def
  by (auto split: if_splits)

lemma connect_line_in_range:
  assumes "edges_in_range g" and "ids ! i < stationCount g" and "ids ! (i + 1) < stationCount g"
  shows "edges_in_range (connect_line ids g i) \<and> stations (connect_line ids g i) = stations g"
  unfolding connect_line_def using connect_ids_in_range [OF assms] .

lemma connect_line_all:
  assumes "edges_in_range g" and "\<forall>k \<in> set ids. k < stationCount g" and "m \<le> length ids - 1"
  shows "edges_in_range (foldl (connect_line ids) g [0..<m]) \<and>
         stations (foldl (connect_line ids) g [0..<m]) = stations g"
  using assms(3)
proof (induction m)
  case 0
  with assms(1) show ?case by simp
next
  case (Suc m)
  then have ih: "edges_in_range (foldl (connect_line ids) g [0..<m])"
    "stations (foldl (connect_line ids) g [0..<m]) = stations g" by simp_all
  from Suc.prems have "m < length ids" "m + 1 < length ids" by simp_all
  then have "ids ! m \<in> set ids" "ids ! (m + 1) \<in> set ids" by simp_all
  with assms(2) ih(2) have "ids ! m < stationCount (foldl (connect_line ids) g [0..<m])"
    "ids ! (m + 1) < stationCount (foldl (connect_line ids) g [0..<m])"
    by (simp_all add: stationCount_def)
  from connect_line_in_range [OF ih(1) this] ih(2) show ?case
    by simp
qed

lemma stations_foldl_connect: "stations (foldl (connect_line ids) g is) = stations g"
  by (induction "is" arbitrary: g) (simp_all add: connect_line_def connect_ids_def Let_def)

text \<open>A call that returns: what it was given and what it returns.\<close>

lemma add_line_with_plan_cases:
  assumes "add_line_with_plan ln list pf g = Inr g'"
  shows "\<exists>ids g1. add_line_stations ln list pf [0..<length list] ([], g) = Inr (ids, g1) \<and>
    g' = foldl (connect_line ids) g1 [0..<length list - 1]"
  using assms by (auto simp: add_line_with_plan_def Let_def split: sum.splits)

lemma add_line_graph_inv:
  assumes "graph_inv g" and "add_line_with_plan ln list pf g = Inr g'"
  shows "graph_inv g'"
proof -
  from add_line_with_plan_cases [OF assms(2)] obtain ids g1 where
    f: "add_line_stations ln list pf [0..<length list] ([], g) = Inr (ids, g1)"
    and g': "g' = foldl (connect_line ids) g1 [0..<length list - 1]" by blast
  from line_acc_all [OF line_acc_start f] have "adj g1 = adj g" by (simp add: line_acc_ok_def)
  with assms(1) have "graph_inv g1" using graph_inv_cong by blast
  then show ?thesis unfolding g' by (rule foldl_connect_graph_inv)
qed

lemma add_line_keeps:
  assumes e: "edges_in_range g" and r: "add_line_with_plan ln list pf g = Inr g'"
  shows "edges_in_range g'" and "stationCount g' \<le> stationCount g + length list"
    and "stationCount g \<le> stationCount g'"
    and "names_fit g \<Longrightarrow> names_fit g'"
proof -
  from add_line_with_plan_cases [OF r] obtain ids g1 where
    f: "add_line_stations ln list pf [0..<length list] ([], g) = Inr (ids, g1)"
    and g': "g' = foldl (connect_line ids) g1 [0..<length list - 1]" by blast
  from line_acc_all [OF line_acc_start f]
  have a: "adj g1 = adj g" "\<forall>k \<in> set ids. k < stationCount g1" "length ids = length list"
    "stationCount g \<le> stationCount g1" "stationCount g1 \<le> stationCount g + length ids"
    "names_fit g \<longrightarrow> names_fit g1" by (simp_all add: line_acc_ok_def)
  from e a(1) a(4) have r1: "edges_in_range g1" by (fastforce simp: edges_in_range_def)
  have m: "length list - 1 \<le> length ids - 1" using a(3) by simp
  note c = connect_line_all [OF r1 a(2) m]
  from c show "edges_in_range g'" unfolding g' by simp
  from c a(5) a(3) show "stationCount g' \<le> stationCount g + length list"
    unfolding g' by (simp add: stationCount_def)
  from c a(4) show "stationCount g \<le> stationCount g'" unfolding g' by (simp add: stationCount_def)
  from c a(6) show "names_fit g \<Longrightarrow> names_fit g'" unfolding g' by (simp add: names_fit_def)
qed

lemma add_line_succeeds:
  assumes L: "finite L" "card L \<le> 6" "ln \<in> L" "length ln \<le> 29"
    and d: "lines_distinct g" and a: "lines_among L g"
    and c: "stationCount g + length list \<le> MAX_STATIONS"
  shows "\<exists>g'. add_line_with_plan ln list pf g = Inr g' \<and> lines_distinct g' \<and> lines_among L g'"
proof -
  have c': "stationCount g + length [0..<length list] \<le> MAX_STATIONS" using c by simp
  have r: "\<forall>i \<in> set [0..<length list]. i < MAX_STATIONS" using c by auto
  from add_line_stations_succeeds [OF L d a c' r, of list pf "[]"] obtain ids g1 where
    f: "add_line_stations ln list pf [0..<length list] ([], g) = Inr (ids, g1)"
    and k: "lines_distinct g1" "lines_among L g1" by blast
  let ?g' = "foldl (connect_line ids) g1 [0..<length list - 1]"
  have "add_line_with_plan ln list pf g = Inr ?g'"
    using f by (simp add: add_line_with_plan_def Let_def)
  moreover have "lines_distinct ?g'" "lines_among L ?g'"
    using k by (simp_all add: lines_distinct_def lines_among_def stations_foldl_connect)
  ultimately show ?thesis by blast
qed

section \<open>The built network\<close>

text \<open>
  \<^verbatim>\<open>build_network\<close> stays inside its tables, from any previous state: it registers at
  most 85 stations (the names of its three lines) and gives no station more than its
  three line names. Its result has a symmetric and irreflexive edge relation, every
  edge joins two stations, and every line name fits its field.
\<close>

lemma build_network_ok:
  "\<exists>g'. build_network include_planned g = Inr g' \<and> graph_inv g' \<and> wf_network g' \<and>
     names_fit g' \<and> stationCount g' \<le> 85"
proof -
  let ?L = "{''purple'', ''green'', ''pink''}"
  let ?g0 = "g\<lparr>stations := [], adj := (\<lambda>i j. 0)\<rparr>"
  have L: "finite ?L" "card ?L \<le> 6" by simp_all
  have len: "length purple = 36" "length green = 31" "length pink = 18"
    by (simp_all add: purple_def green_def pink_def)
  have 0: "graph_inv ?g0" "edges_in_range ?g0" "stationCount ?g0 = 0" "names_fit ?g0"
    "lines_distinct ?g0" "lines_among ?L ?g0"
    by (simp_all add: graph_inv_def edges_in_range_def stationCount_def names_fit_def
        lines_distinct_def lines_among_def)
  have c0: "stationCount ?g0 + length purple \<le> MAX_STATIONS"
    using 0(3) len by (simp add: MAX_STATIONS_def)
  from add_line_succeeds [OF L _ _ 0(5) 0(6) c0, of "''purple''" "Some (replicate (length purple) 0)"]
  obtain g1 where r1: "add_line_with_plan ''purple'' purple (Some (replicate (length purple) 0)) ?g0 = Inr g1"
    and l1: "lines_distinct g1" "lines_among ?L g1" by auto
  note k1 = add_line_keeps [OF 0(2) r1]
  have i1: "graph_inv g1" using add_line_graph_inv [OF 0(1) r1] .
  have n1: "stationCount g1 \<le> 36" "names_fit g1" using k1(2) k1(4) 0(3) 0(4) len by simp_all
  have c1: "stationCount g1 + length green \<le> MAX_STATIONS"
    using n1(1) len by (simp add: MAX_STATIONS_def)
  from add_line_succeeds [OF L _ _ l1 c1, of "''green''" "Some (replicate (length green) 0)"]
  obtain g2 where r2: "add_line_with_plan ''green'' green (Some (replicate (length green) 0)) g1 = Inr g2"
    and l2: "lines_distinct g2" "lines_among ?L g2" by auto
  note k2 = add_line_keeps [OF k1(1) r2]
  have i2: "graph_inv g2" using add_line_graph_inv [OF i1 r2] .
  have n2: "stationCount g2 \<le> 67" "names_fit g2" using k2(2) k2(4) n1 len by simp_all
  have c2: "stationCount g2 + length pink \<le> MAX_STATIONS"
    using n2(1) len by (simp add: MAX_STATIONS_def)
  from add_line_succeeds [OF L _ _ l2 c2, of "''pink''" "Some (replicate (length pink) 0)"]
  obtain g3 where r3: "add_line_with_plan ''pink'' pink (Some (replicate (length pink) 0)) g2 = Inr g3"
    by auto
  note k3 = add_line_keeps [OF k2(1) r3]
  have i3: "graph_inv g3" using add_line_graph_inv [OF i2 r3] .
  have n3: "stationCount g3 \<le> 85" "names_fit g3" using k3(2) k3(4) n2 len by simp_all
  have w3: "wf_network g3"
    using k3(1) n3(1) by (simp add: wf_network_def edges_in_range_def MAX_STATIONS_def)
  have "build_network include_planned g = Inr g3"
    using r1 r2 r3 by (simp add: build_network_def Let_def)
  with i3 w3 n3 show ?thesis by blast
qed

text \<open>
  C7. \<^verbatim>\<open>build_network\<close>, from any previous state, returns a network whose edge relation
  is symmetric and irreflexive, and \<^verbatim>\<open>connect_ids\<close> and \<^verbatim>\<open>add_line_with_plan\<close> keep it
  so.
\<close>

theorem graph_symmetric_irreflexive:
  "(\<exists>g'. build_network include_planned g0 = Inr g' \<and> graph_inv g') \<and>
   (graph_inv g \<longrightarrow> graph_inv (connect_ids a b g)) \<and>
   (graph_inv g \<longrightarrow>
      (\<forall>g'. add_line_with_plan lineName list planned_flags g = Inr g' \<longrightarrow> graph_inv g'))"
  using build_network_ok [of include_planned g0] connect_ids_graph_inv add_line_graph_inv
  by blast

theorem graph_symmetric_irreflexive_witness:
  "graph_inv empty_network \<and> graph_inv (connect_ids 0 1 empty_network) \<and>
   adj (connect_ids 0 1 empty_network) 0 1 = 1 \<and>
   adj (connect_ids 0 1 empty_network) 1 0 = 1 \<and>
   (case add_line_with_plan ''purple'' [''a'', ''b''] None empty_network of
      Inr g' \<Rightarrow> graph_inv g' \<and> adj g' 0 1 = 1 \<and> adj g' 1 0 = 1 \<and> adj g' 0 0 = 0
    | Inl f \<Rightarrow> False)"
proof -
  note t = graph_symmetric_irreflexive [of 0 empty_network empty_network 0 1 "''purple''"
      "[''a'', ''b'']" None]
  have h: "graph_inv empty_network" by (simp add: graph_inv_def empty_network_def)
  have c: "graph_inv (connect_ids 0 1 empty_network)" using t h by blast
  have e: "(case add_line_with_plan ''purple'' [''a'', ''b''] None empty_network of
      Inr g' \<Rightarrow> adj g' 0 1 = 1 \<and> adj g' 1 0 = 1 \<and> adj g' 0 0 = 0 | Inl f \<Rightarrow> False)"
    by code_simp
  then obtain g' where g': "add_line_with_plan ''purple'' [''a'', ''b''] None empty_network = Inr g'"
    by (cases "add_line_with_plan ''purple'' [''a'', ''b''] None empty_network") simp_all
  from t h g' have "graph_inv g'" by blast
  with e g' have "(case add_line_with_plan ''purple'' [''a'', ''b''] None empty_network of
      Inr g' \<Rightarrow> graph_inv g' \<and> adj g' 0 1 = 1 \<and> adj g' 1 0 = 1 \<and> adj g' 0 0 = 0
    | Inl f \<Rightarrow> False)" by simp
  with h c show ?thesis by (simp add: connect_ids_def empty_network_def)
qed

section \<open>The station table at its capacity\<close>







section \<open>Registering a name twice\<close>


















text \<open>
  A seventh line name on one station is a write past its six slots, which the model
  reports.
\<close>

lemma add_line_tag_seventh:
  assumes "i < stationCount g" and "length (lines (stations g ! i)) = 6"
    and "line \<notin> set (lines (stations g ! i))"
  shows "add_line_tag i line g = Inl WritePastLines"
  using assms by (simp add: add_line_tag_def Let_def)





section \<open>\<^verbatim>\<open>build_edge_lines\<close>\<close>

text \<open>
  The inner loop over the second station's lines, for one line \<open>la\<close> of the first: at
  a match it copies \<open>la\<close> with \<^verbatim>\<open>strncpy(..., 29)\<close> and sets \<^verbatim>\<open>found\<close>, which ends both
  loops.
\<close>

fun match_line :: "string \<Rightarrow> string list \<Rightarrow> string option" where
  "match_line la [] = None"
| "match_line la (lb # lbs) = (if la = lb then Some (take 29 la) else match_line la lbs)"

text \<open>The outer loop over the first station's lines, in their order.\<close>

fun common_line :: "string list \<Rightarrow> string list \<Rightarrow> string option" where
  "common_line [] lbs = None"
| "common_line (la # las) lbs =
     (case match_line la lbs of Some l \<Rightarrow> Some l | None \<Rightarrow> common_line las lbs)"

text \<open>The label of one pair: the line found, or \<^verbatim>\<open>"unknown"\<close>.\<close>

definition edge_line :: "network \<Rightarrow> nat \<Rightarrow> nat \<Rightarrow> string" where
  "edge_line g a b =
     (case common_line (lines (stations g ! a)) (lines (stations g ! b)) of
        Some l \<Rightarrow> l
      | None \<Rightarrow> ''unknown'')"

text \<open>
  \<^verbatim>\<open>build_edge_lines\<close> writes \<^verbatim>\<open>edgeLines[0 .. len - 2]\<close>; the model returns these
  entries.
\<close>

definition build_edge_lines :: "network \<Rightarrow> nat list \<Rightarrow> string list" where
  "build_edge_lines g path =
     map (\<lambda>i. edge_line g (path ! i) (path ! (i + 1))) [0..<length path - 1]"

lemma match_line_eq:
  "match_line la lbs = (if la \<in> set lbs then Some (take 29 la) else None)"
  by (induction lbs) auto

lemma common_line_eq:
  "common_line las lbs = map_option (take 29) (find (\<lambda>l. l \<in> set lbs) las)"
  by (induction las) (auto simp: match_line_eq)

lemma find_in_set: "find P xs = Some x \<Longrightarrow> x \<in> set xs"
  by (induction xs) (auto split: if_splits)

lemma common_line_fit:
  assumes "\<forall>l \<in> set las. length l \<le> 29"
  shows "common_line las lbs = find (\<lambda>l. l \<in> set lbs) las"
proof (cases "find (\<lambda>l. l \<in> set lbs) las")
  case None
  then show ?thesis by (simp add: common_line_eq)
next
  case (Some l)
  then have "length l \<le> 29" using assms find_in_set by fastforce
  with Some show ?thesis by (simp add: common_line_eq)
qed

text \<open>
  C9. On a table whose line names fit their fields, and for every path of station ids,
  \<^verbatim>\<open>build_edge_lines\<close> gives one label for each consecutive pair: the first line of the
  first station, in insertion order, that is also a line of the second station, and
  \<open>unknown\<close> when they share no line.
\<close>

theorem edge_lines_first_common:
  assumes "names_fit g" and "\<forall>a \<in> set path. a < stationCount g"
  shows "length (build_edge_lines g path) = length path - 1 \<and>
    (\<forall>i < length path - 1.
       build_edge_lines g path ! i =
         (case find (\<lambda>l. l \<in> set (lines (stations g ! (path ! (i + 1)))))
                 (lines (stations g ! (path ! i))) of
            Some l \<Rightarrow> l
          | None \<Rightarrow> ''unknown''))"
proof -
  have "edge_line g (path ! i) (path ! (i + 1)) =
         (case find (\<lambda>l. l \<in> set (lines (stations g ! (path ! (i + 1)))))
                 (lines (stations g ! (path ! i))) of
            Some l \<Rightarrow> l
          | None \<Rightarrow> ''unknown'')" if "i < length path - 1" for i
  proof -
    from that have "path ! i \<in> set path" by simp
    with assms(2) have "path ! i < length (stations g)" by (auto simp: stationCount_def)
    then have "stations g ! (path ! i) \<in> set (stations g)" by simp
    with assms(1) have "\<forall>l \<in> set (lines (stations g ! (path ! i))). length l \<le> 29"
      by (simp add: names_fit_def)
    from common_line_fit [OF this] show ?thesis by (simp add: edge_line_def)
  qed
  then show ?thesis by (simp add: build_edge_lines_def)
qed

text \<open>Three stations: the first two share two lines, the third shares none.\<close>

definition two_lines :: network where
  "two_lines =
     \<lparr>stations =
        [\<lparr>display_name = ''A'', key_name = ''a'', lines = [''purple'', ''green''], planned = 0\<rparr>,
         \<lparr>display_name = ''B'', key_name = ''b'', lines = [''pink'', ''green'', ''purple''], planned = 0\<rparr>,
         \<lparr>display_name = ''C'', key_name = ''c'', lines = [''blue''], planned = 0\<rparr>],
      adj = (\<lambda>i j. 0)\<rparr>"

theorem edge_lines_first_common_witness:
  "names_fit two_lines \<and> list_all (\<lambda>a. a < stationCount two_lines) [0, 1, 2] \<and>
   length (build_edge_lines two_lines [0, 1, 2]) = 2 \<and>
   build_edge_lines two_lines [0, 1, 2] ! 0 = ''purple'' \<and>
   build_edge_lines two_lines [0, 1, 2] ! 1 = ''unknown''"
proof -
  have a: "names_fit two_lines" by (simp add: names_fit_def two_lines_def)
  have b: "\<forall>a \<in> set [0, 1, 2]. a < stationCount two_lines"
    by (simp add: stationCount_def two_lines_def)
  note t = edge_lines_first_common [OF a b]
  have c: "build_edge_lines two_lines [0, 1, 2] ! 0 = ''purple''"
    using t [THEN conjunct2, rule_format, of 0] by (simp add: two_lines_def)
  have d: "build_edge_lines two_lines [0, 1, 2] ! 1 = ''unknown''"
    using t [THEN conjunct2, rule_format, of 1] by (simp add: two_lines_def)
  have e: "length (build_edge_lines two_lines [0, 1, 2]) = 2"
    using t [THEN conjunct1] by simp
  from a b c d e show ?thesis by (simp add: list_all_iff)
qed


section \<open>Breadth-first search\<close>

text \<open>
  The blocked edges are the pairs \<^verbatim>\<open>(blocked_a[b], blocked_b[b])\<close> for
  \<^verbatim>\<open>b < blocked_count\<close>, a list of pairs here; the null pointers with count 0 of
  \<^verbatim>\<open>bfs_simple\<close> are the empty list. The innermost loop tests an edge against them in
  both orientations.
\<close>

fun edge_blocked :: "(nat \<times> nat) list \<Rightarrow> nat \<Rightarrow> nat \<Rightarrow> bool" where
  "edge_blocked [] u v = False"
| "edge_blocked ((a, b) # bs) u v =
     (if (u = a \<and> v = b) \<or> (u = b \<and> v = a) then True else edge_blocked bs u v)"

text \<open>
  The locals of \<^verbatim>\<open>bfs_with_blocked_edges\<close>: \<open>q\<close> is \<^verbatim>\<open>q[0 .. rear - 1]\<close>, so that
  \<^verbatim>\<open>rear\<close> is its length, and \<open>parent\<close> is the caller's array, with \<open>- 1\<close> for "none".
\<close>

record bfs_state =
  visited :: "nat \<Rightarrow> int"
  q :: "nat list"
  front :: nat
  parent :: "nat \<Rightarrow> int"

text \<open>The body of the loop over \<^verbatim>\<open>v\<close>, for the node \<open>u\<close> taken from the queue.\<close>

definition visit :: "network \<Rightarrow> (nat \<times> nat) list \<Rightarrow> nat \<Rightarrow> bfs_state \<Rightarrow> nat \<Rightarrow> bfs_state" where
  "visit g blocked u s v =
     (if adj g u v = 0 then s
      else if visited s v \<noteq> 0 then s
      else if edge_blocked blocked u v then s
      else s\<lparr>visited := (visited s)(v := 1), q := q s @ [v], parent := (parent s)(v := int u)\<rparr>)"

text \<open>The loop \<^verbatim>\<open>for (v = 0; v < stationCount; v++)\<close>.\<close>

definition expand :: "network \<Rightarrow> (nat \<times> nat) list \<Rightarrow> nat \<Rightarrow> bfs_state \<Rightarrow> bfs_state" where
  "expand g blocked u s = foldl (visit g blocked u) s [0..<stationCount g]"

text \<open>
  The loop \<^verbatim>\<open>while (front < rear)\<close> terminates: each round takes one node from the
  queue, and each node put into the queue is a station that was not visited before.
\<close>

definition unvisited :: "network \<Rightarrow> bfs_state \<Rightarrow> nat set" where
  "unvisited g s = {v. v < stationCount g \<and> visited s v = 0}"

lemma finite_unvisited: "finite (unvisited g s)"
  by (simp add: unvisited_def)

lemma visit_measure:
  assumes "v < stationCount g"
  shows "card (unvisited g (visit g blocked u s v)) + length (q (visit g blocked u s v))
           \<le> card (unvisited g s) + length (q s) \<and>
         front (visit g blocked u s v) = front s"
proof (cases "adj g u v \<noteq> 0 \<and> visited s v = 0 \<and> \<not> edge_blocked blocked u v")
  case False
  then show ?thesis by (auto simp: visit_def)
next
  case True
  let ?s' = "s\<lparr>visited := (visited s)(v := 1), q := q s @ [v], parent := (parent s)(v := int u)\<rparr>"
  have e: "visit g blocked u s v = ?s'" using True by (simp add: visit_def)
  have "unvisited g ?s' = unvisited g s - {v}"
    by (auto simp: unvisited_def)
  moreover have "v \<in> unvisited g s" using True assms by (simp add: unvisited_def)
  ultimately have "card (unvisited g ?s') = card (unvisited g s) - 1"
    and "card (unvisited g s) > 0"
    using finite_unvisited [of g s] by (auto simp: card_gt_0_iff)
  then show ?thesis unfolding e by simp
qed

lemma foldl_visit_measure:
  "\<forall>v \<in> set vs. v < stationCount g \<Longrightarrow>
   card (unvisited g (foldl (visit g blocked u) s vs)) + length (q (foldl (visit g blocked u) s vs))
     \<le> card (unvisited g s) + length (q s) \<and>
   front (foldl (visit g blocked u) s vs) = front s"
proof (induction vs arbitrary: s)
  case Nil
  then show ?case by simp
next
  case (Cons v vs)
  from Cons.prems have v: "v < stationCount g" and vs: "\<forall>v \<in> set vs. v < stationCount g" by simp_all
  from Cons.IH [OF vs, of "visit g blocked u s v"] visit_measure [OF v, of blocked u s]
  show ?case by simp
qed

lemma expand_measure:
  "card (unvisited g (expand g blocked u s)) + length (q (expand g blocked u s))
     \<le> card (unvisited g s) + length (q s) \<and>
   front (expand g blocked u s) = front s"
  unfolding expand_def by (rule foldl_visit_measure) simp

text \<open>
  The loop \<^verbatim>\<open>while (front < rear)\<close>; the result is the returned flag and the parent
  array as the call leaves it.
\<close>

function bfs_loop :: "network \<Rightarrow> nat \<Rightarrow> (nat \<times> nat) list \<Rightarrow> bfs_state \<Rightarrow> bool \<times> (nat \<Rightarrow> int)" where
  "bfs_loop g dest blocked s =
     (if front s < length (q s)
      then (let u = q s ! front s; s1 = s\<lparr>front := front s + 1\<rparr>
            in if u = dest then (True, parent s1)
               else bfs_loop g dest blocked (expand g blocked u s1))
      else (False, parent s))"
  by pat_completeness auto
termination
proof (relation "measure (\<lambda>(g, dest, blocked, s). card (unvisited g s) + length (q s) - front s)")
  show "wf (measure (\<lambda>(g, dest, blocked, s). card (unvisited g s) + length (q s) - front s))"
    by simp
next
  fix g :: network and dest :: nat and blocked :: "(nat \<times> nat) list" and s :: bfs_state
    and u :: nat and s1 :: bfs_state
  assume a: "front s < length (q s)" and u: "u = q s ! front s"
    and s1: "s1 = s\<lparr>front := front s + 1\<rparr>" and "u \<noteq> dest"
  have "unvisited g s1 = unvisited g s" by (simp add: s1 unvisited_def)
  with expand_measure [of g blocked u s1] s1
  have "card (unvisited g (expand g blocked u s1)) + length (q (expand g blocked u s1))
          \<le> card (unvisited g s) + length (q s)"
    and "front (expand g blocked u s1) = Suc (front s)" by simp_all
  with a have "card (unvisited g (expand g blocked u s1)) + length (q (expand g blocked u s1))
      - front (expand g blocked u s1) < card (unvisited g s) + length (q s) - front s"
    by arith
  then show "((g, dest, blocked, expand g blocked u s1), (g, dest, blocked, s))
          \<in> measure (\<lambda>(g, dest, blocked, s). card (unvisited g s) + length (q s) - front s)"
    by simp
qed

declare bfs_loop.simps [simp del]

definition bfs_with_blocked_edges ::
  "network \<Rightarrow> nat \<Rightarrow> nat \<Rightarrow> (nat \<Rightarrow> int) \<Rightarrow> (nat \<times> nat) list \<Rightarrow> bool \<times> (nat \<Rightarrow> int)" where
  "bfs_with_blocked_edges g src dest parent0 blocked =
     bfs_loop g dest blocked
       \<lparr>visited = (\<lambda>v. 0)(src := 1), q = [src], front = 0, parent = parent0(src := - 1)\<rparr>"

text \<open>\<^verbatim>\<open>bfs_simple\<close>: no blocked edge.\<close>

definition bfs_simple :: "network \<Rightarrow> nat \<Rightarrow> nat \<Rightarrow> (nat \<Rightarrow> int) \<Rightarrow> bool \<times> (nat \<Rightarrow> int)" where
  "bfs_simple g src dest parent0 = bfs_with_blocked_edges g src dest parent0 []"

text \<open>
  The reconstruction that every caller runs after a successful search:
  \<^verbatim>\<open>while (cur != -1) { path[len++] = cur; cur = parent[cur]; }\<close> into \<^verbatim>\<open>path[MAX]\<close>,
  then the reversal. The fuel is the size of the buffer: \<open>None\<close> stands for a write
  past \<^verbatim>\<open>path[MAX - 1]\<close>.
\<close>

fun follow_parents :: "nat \<Rightarrow> (nat \<Rightarrow> int) \<Rightarrow> int \<Rightarrow> nat list option" where
  "follow_parents 0 par cur = (if cur = - 1 then Some [] else None)"
| "follow_parents (Suc n) par cur =
     (if cur = - 1 then Some []
      else map_option ((#) (nat cur)) (follow_parents n par (par (nat cur))))"

definition reconstruct :: "(nat \<Rightarrow> int) \<Rightarrow> nat \<Rightarrow> nat list option" where
  "reconstruct par dest = map_option rev (follow_parents MAX_STATIONS par (int dest))"

text \<open>
  A query as \<^verbatim>\<open>get_route\<close>, \<^verbatim>\<open>main\<close> and \<^verbatim>\<open>find_alternates\<close> run it: the parent array
  set to \<open>- 1\<close>, the search, and the reconstruction when the search succeeds.
\<close>

datatype route = Route "nat list" | NoRoute | PathOverflow

definition shortest_path :: "network \<Rightarrow> nat \<Rightarrow> nat \<Rightarrow> (nat \<times> nat) list \<Rightarrow> route" where
  "shortest_path g src dest blocked =
     (let (found, par) = bfs_with_blocked_edges g src dest (\<lambda>i. - 1) blocked
      in if found
         then (case reconstruct par dest of Some path \<Rightarrow> Route path | None \<Rightarrow> PathOverflow)
         else NoRoute)"

section \<open>\<^verbatim>\<open>find_alternates\<close>\<close>

text \<open>\<^verbatim>\<open>route_equals\<close>: equal lengths and equal entries.\<close>

definition route_equals :: "nat list \<Rightarrow> nat list \<Rightarrow> bool" where
  "route_equals a b =
     (if length a \<noteq> length b then False else list_all (\<lambda>i. a ! i = b ! i) [0..<length a])"

text \<open>
  The loop over the edges \<open>e\<close> of the primary path, with the test
  \<^verbatim>\<open>altcount < MAX_ALTERNATES\<close> of its condition; \<open>alternates\<close> are the paths accepted so
  far. \<open>None\<close> is a reconstruction that would write past its buffer.
\<close>

fun alternates_loop :: "network \<Rightarrow> nat list \<Rightarrow> nat list \<Rightarrow> nat list list \<Rightarrow> nat list list option" where
  "alternates_loop g primary [] alternates = Some alternates"
| "alternates_loop g primary (e # es) alternates =
     (if length alternates < MAX_ALTERNATES
      then (case shortest_path g (primary ! 0) (primary ! (length primary - 1))
                   [(primary ! e, primary ! (e + 1))] of
              NoRoute \<Rightarrow> alternates_loop g primary es alternates
            | PathOverflow \<Rightarrow> None
            | Route path \<Rightarrow>
                if route_equals path primary \<or> list_ex (route_equals path) alternates
                then alternates_loop g primary es alternates
                else alternates_loop g primary es (alternates @ [path]))
      else Some alternates)"

definition find_alternates :: "network \<Rightarrow> nat list \<Rightarrow> nat list list option" where
  "find_alternates g primary = alternates_loop g primary [0..<length primary - 1] []"

section \<open>Correctness of the search\<close>

text \<open>
  An edge the loop over \<^verbatim>\<open>v\<close> can follow from \<open>u\<close>: \<open>v\<close> is a station, adjacent to \<open>u\<close>
  and the pair is not blocked. A walk follows such edges.
\<close>

definition open_edge :: "network \<Rightarrow> (nat \<times> nat) list \<Rightarrow> nat \<Rightarrow> nat \<Rightarrow> bool" where
  "open_edge g blocked u v =
     (v < stationCount g \<and> adj g u v \<noteq> 0 \<and> \<not> edge_blocked blocked u v)"

fun walk :: "network \<Rightarrow> (nat \<times> nat) list \<Rightarrow> nat list \<Rightarrow> bool" where
  "walk g blocked [] = False"
| "walk g blocked [x] = True"
| "walk g blocked (x # y # r) = (open_edge g blocked x y \<and> walk g blocked (y # r))"

text \<open>
  The order in which the search reaches paths: shorter first, and among paths of one
  length the lexicographically smaller sequence of station ids first.
\<close>

definition before :: "nat list \<Rightarrow> nat list \<Rightarrow> bool" where
  "before p p' = ((p, p') \<in> lenlex less_than)"

definition before_eq :: "nat list \<Rightarrow> nat list \<Rightarrow> bool" where
  "before_eq p p' = (p = p' \<or> before p p')"

lemma before_trans: "before a b \<Longrightarrow> before b c \<Longrightarrow> before a c"
  unfolding before_def using lenlex_trans [of a b less_than c] by simp

lemma before_eq_trans1: "before_eq a b \<Longrightarrow> before b c \<Longrightarrow> before a c"
  unfolding before_eq_def using before_trans by blast

lemma before_eq_trans2: "before a b \<Longrightarrow> before_eq b c \<Longrightarrow> before a c"
  unfolding before_eq_def using before_trans by blast

lemma before_shorter: "length a < length b \<Longrightarrow> before a b"
  by (simp add: before_def lenlex_conv)

lemma before_length: "before a b \<Longrightarrow> length a \<le> length b"
  unfolding before_def by (rule lenlex_length)

lemma before_irrefl: "\<not> before a a"
  unfolding before_def by (rule lenlex_irreflexive) simp

lemma before_snoc: "before a b \<Longrightarrow> before (a @ [x]) (b @ [y])"
  unfolding before_def by (rule lenlex_append1) simp_all

lemma before_snoc_last: "x < y \<Longrightarrow> before (a @ [x]) (a @ [y])"
proof -
  have "irrefl less_than" by (simp add: irrefl_def)
  moreover have "([x], [y]) \<in> lenlex less_than" if "x < y"
    using that by (simp add: Cons_lenlex_iff)
  ultimately show "x < y \<Longrightarrow> before (a @ [x]) (a @ [y])"
    unfolding before_def by (simp add: lenlex_append2)
qed

lemma before_eq_snoc: "before_eq a b \<Longrightarrow> before_eq (a @ [x]) (b @ [x])"
  unfolding before_eq_def using before_snoc by blast

lemma before_append_one: "a \<noteq> [] \<Longrightarrow> before a (a @ [x])"
  by (rule before_shorter) simp

lemma walk_snoc:
  "walk g blocked (p @ [w]) \<longleftrightarrow> (p = [] \<or> (walk g blocked p \<and> open_edge g blocked (last p) w))"
proof (induction p rule: walk.induct [where ?a0.0 = g and ?a1.0 = blocked])
  case (1 g blocked)
  then show ?case by simp
next
  case (2 g blocked x)
  then show ?case by simp
next
  case (3 g blocked x y r)
  then show ?case by auto
qed

lemma walk_nonempty: "walk g blocked p \<Longrightarrow> p \<noteq> []"
  by (cases p) auto

subsection \<open>Invariants\<close>

text \<open>
  \<open>tp v\<close> is the path from the source to \<open>v\<close> in the tree of parents. The queue holds
  the visited nodes, in the order of their tree paths; every node but the source has
  its parent among the nodes already taken from the queue; the nodes taken from the
  queue have all their neighbours in the queue, none with a tree path after the path
  through that node.
\<close>

definition inv_queue :: "network \<Rightarrow> nat \<Rightarrow> bfs_state \<Rightarrow> bool" where
  "inv_queue g src s =
     (src \<in> set (q s) \<and> distinct (q s) \<and> front s \<le> length (q s) \<and>
      (\<forall>v. visited s v \<noteq> 0 \<longleftrightarrow> v \<in> set (q s)) \<and>
      (\<forall>v \<in> set (q s). v = src \<or> v < stationCount g) \<and>
      parent s src = - 1)"

definition inv_tree ::
  "network \<Rightarrow> (nat \<times> nat) list \<Rightarrow> nat \<Rightarrow> (nat \<Rightarrow> nat list) \<Rightarrow> bfs_state \<Rightarrow> bool" where
  "inv_tree g blocked src tp s =
     (tp src = [src] \<and>
      (\<forall>v \<in> set (q s). v \<noteq> src \<longrightarrow>
         (\<exists>u \<in> set (take (front s) (q s)).
            parent s v = int u \<and> open_edge g blocked u v \<and> tp v = tp u @ [v])) \<and>
      sorted_wrt (\<lambda>a b. before (tp a) (tp b)) (q s) \<and>
      (\<forall>v \<in> set (q s). walk g blocked (tp v) \<and> hd (tp v) = src \<and> last (tp v) = v \<and>
         set (tp v) \<subseteq> set (q s) \<and> distinct (tp v)))"

definition closed_under ::
  "network \<Rightarrow> (nat \<times> nat) list \<Rightarrow> (nat \<Rightarrow> nat list) \<Rightarrow> bfs_state \<Rightarrow> nat list \<Rightarrow> bool" where
  "closed_under g blocked tp s xs =
     (\<forall>x \<in> set xs. \<forall>w. open_edge g blocked x w \<longrightarrow>
        w \<in> set (q s) \<and> before_eq (tp w) (tp x @ [w]))"

definition loop_inv ::
  "network \<Rightarrow> (nat \<times> nat) list \<Rightarrow> nat \<Rightarrow> nat \<Rightarrow> (nat \<Rightarrow> nat list) \<Rightarrow> bfs_state \<Rightarrow> bool" where
  "loop_inv g blocked src dest tp s =
     (inv_queue g src s \<and> inv_tree g blocked src tp s \<and>
      closed_under g blocked tp s (take (front s) (q s)) \<and>
      dest \<notin> set (take (front s) (q s)))"

text \<open>
  Inside the loop over \<^verbatim>\<open>v\<close>, at \<^verbatim>\<open>v = k\<close>, for the node \<open>u\<close> taken last from the queue.
\<close>

definition scan_inv ::
  "network \<Rightarrow> (nat \<times> nat) list \<Rightarrow> nat \<Rightarrow> nat \<Rightarrow> (nat \<Rightarrow> nat list) \<Rightarrow> bfs_state \<Rightarrow> nat \<Rightarrow> nat \<Rightarrow> bool" where
  "scan_inv g blocked src dest tp s u k =
     (inv_queue g src s \<and> inv_tree g blocked src tp s \<and>
      0 < front s \<and> q s ! (front s - 1) = u \<and>
      closed_under g blocked tp s (take (front s - 1) (q s)) \<and>
      (\<forall>w < k. open_edge g blocked u w \<longrightarrow> w \<in> set (q s) \<and> before_eq (tp w) (tp u @ [w])) \<and>
      dest \<notin> set (take (front s) (q s)) \<and>
      (\<forall>v \<in> set (q s). v \<noteq> src \<and> parent s v = int u \<longrightarrow> v < k))"

lemma visit_eq:
  "v < stationCount g \<Longrightarrow>
   visit g blocked u s v =
     (if open_edge g blocked u v \<and> visited s v = 0
      then s\<lparr>visited := (visited s)(v := 1), q := q s @ [v], parent := (parent s)(v := int u)\<rparr>
      else s)"
  by (simp add: visit_def open_edge_def)

text \<open>The queue around the node being expanded.\<close>

lemma queue_split:
  assumes "0 < front s" and "front s \<le> length (q s)" and "q s ! (front s - 1) = u"
  shows "q s = take (front s - 1) (q s) @ u # drop (front s) (q s)"
    and "take (front s) (q s) = take (front s - 1) (q s) @ [u]"
proof -
  from assms have l: "front s - 1 < length (q s)" by simp
  from id_take_nth_drop [OF l] assms show "q s = take (front s - 1) (q s) @ u # drop (front s) (q s)"
    by simp
  from take_Suc_conv_app_nth [OF l] assms show "take (front s) (q s) = take (front s - 1) (q s) @ [u]"
    by simp
qed


lemma scan_inv_facts:
  assumes "scan_inv g blocked src dest tp s u k"
  shows "u \<in> set (q s)" and "tp u \<noteq> []"
    and "take (front s) (q s) = take (front s - 1) (q s) @ [u]"
    and "\<forall>p \<in> set (take (front s - 1) (q s)). before (tp p) (tp u)"
proof -
  from assms have f: "0 < front s" "front s \<le> length (q s)" "q s ! (front s - 1) = u"
    by (simp_all add: scan_inv_def inv_queue_def)
  note sp = queue_split [OF f]
  have "u \<in> set (take (front s - 1) (q s) @ u # drop (front s) (q s))" by simp
  with sp(1) show u: "u \<in> set (q s)" by simp
  from assms u have "walk g blocked (tp u)" by (simp add: scan_inv_def inv_tree_def)
  then show "tp u \<noteq> []" by (rule walk_nonempty)
  from sp(2) show "take (front s) (q s) = take (front s - 1) (q s) @ [u]" .
  from assms have "sorted_wrt (\<lambda>a b. before (tp a) (tp b)) (q s)"
    by (simp add: scan_inv_def inv_tree_def)
  then have "sorted_wrt (\<lambda>a b. before (tp a) (tp b)) (take (front s - 1) (q s) @ u # drop (front s) (q s))"
    using sp(1) by simp
  then show "\<forall>p \<in> set (take (front s - 1) (q s)). before (tp p) (tp u)"
    by (simp add: sorted_wrt_append)
qed

text \<open>A queued node's tree path against the path through \<open>u\<close>.\<close>

lemma queued_cases:
  assumes inv: "scan_inv g blocked src dest tp s u k" and x: "x \<in> set (q s)"
  shows "(x = src \<and> tp x = [src]) \<or>
    (x \<noteq> src \<and> parent s x = int u \<and> tp x = tp u @ [x]) \<or>
    (\<exists>p. x \<noteq> src \<and> before (tp p) (tp u) \<and> tp x = tp p @ [x])"
proof (cases "x = src")
  case True
  moreover from inv have "tp src = [src]" by (simp add: scan_inv_def inv_tree_def)
  ultimately show ?thesis by simp
next
  case False
  from inv x False obtain p where p: "p \<in> set (take (front s) (q s))"
    and px: "parent s x = int p" "tp x = tp p @ [x]"
    unfolding scan_inv_def inv_tree_def by blast
  show ?thesis
  proof (cases "p = u")
    case True
    with px False show ?thesis by simp
  next
    case pu: False
    from p scan_inv_facts(3) [OF inv] pu have "p \<in> set (take (front s - 1) (q s))" by simp
    with scan_inv_facts(4) [OF inv] have "before (tp p) (tp u)" by blast
    with px False show ?thesis by blast
  qed
qed

lemma before_new:
  assumes inv: "scan_inv g blocked src dest tp s u k" and x: "x \<in> set (q s)"
  shows "before (tp x) (tp u @ [k])"
proof -
  from queued_cases [OF inv x] consider
    (root) "x = src" "tp x = [src]"
  | (child) "x \<noteq> src" "parent s x = int u" "tp x = tp u @ [x]"
  | (earlier) p where "x \<noteq> src" "before (tp p) (tp u)" "tp x = tp p @ [x]"
    by blast
  then show ?thesis
  proof cases
  case root
  from scan_inv_facts(2) [OF inv] have "length [src] < length (tp u @ [k])"
    by (cases "tp u") simp_all
  then show ?thesis using root before_shorter by metis
next
  case child
  with inv x have "x < k" unfolding scan_inv_def by blast
  then show ?thesis using child before_snoc_last by simp
next
  case (earlier p)
  then show ?thesis using before_snoc by simp
qed
qed

lemma before_eq_old:
  assumes inv: "scan_inv g blocked src dest tp s u k" and x: "x \<in> set (q s)"
  shows "before_eq (tp x) (tp u @ [x])"
proof -
  from queued_cases [OF inv x] consider
    (root) "x = src" "tp x = [src]"
  | (child) "x \<noteq> src" "parent s x = int u" "tp x = tp u @ [x]"
  | (earlier) p where "x \<noteq> src" "before (tp p) (tp u)" "tp x = tp p @ [x]"
    by blast
  then show ?thesis
  proof cases
  case root
  from scan_inv_facts(2) [OF inv] have "length [src] < length (tp u @ [x])"
    by (cases "tp u") simp_all
  then have "before [src] (tp u @ [x])" by (rule before_shorter)
  then show ?thesis using root by (simp add: before_eq_def)
next
  case child
  then show ?thesis by (simp add: before_eq_def)
next
  case (earlier p)
  then show ?thesis using before_snoc by (simp add: before_eq_def)
qed
qed

lemma scan_step_same:
  assumes inv: "scan_inv g blocked src dest tp s u k"
    and no: "\<not> (open_edge g blocked u k \<and> visited s k = 0)"
  shows "scan_inv g blocked src dest tp s u (Suc k)"
proof -
  have c: "k \<in> set (q s) \<and> before_eq (tp k) (tp u @ [k])" if "open_edge g blocked u k"
  proof -
    from that no have "visited s k \<noteq> 0" by simp
    with inv have "k \<in> set (q s)" by (simp add: scan_inv_def inv_queue_def)
    with before_eq_old [OF inv] show ?thesis by simp
  qed
  have "w \<in> set (q s) \<and> before_eq (tp w) (tp u @ [w])" if "w < Suc k" "open_edge g blocked u w" for w
  proof (cases "w = k")
    case True
    with c that show ?thesis by simp
  next
    case False
    with that have "w < k" by simp
    with inv that show ?thesis unfolding scan_inv_def by blast
  qed
  moreover have "v < Suc k" if "v \<in> set (q s)" "v \<noteq> src" "parent s v = int u" for v
  proof -
    from inv that have "v < k" unfolding scan_inv_def by blast
    then show ?thesis by simp
  qed
  ultimately show ?thesis using inv unfolding scan_inv_def by blast
qed

lemma scan_step_new:
  assumes inv: "scan_inv g blocked src dest tp s u k"
    and kn: "k < stationCount g"
    and yes: "open_edge g blocked u k" "visited s k = 0"
  defines "s' \<equiv> s\<lparr>visited := (visited s)(k := 1), q := q s @ [k], parent := (parent s)(k := int u)\<rparr>"
    and "tp' \<equiv> tp(k := tp u @ [k])"
  shows "scan_inv g blocked src dest tp' s' u (Suc k)"
proof -
  from inv have iq: "inv_queue g src s" and it: "inv_tree g blocked src tp s"
    and f0: "0 < front s" and fu: "q s ! (front s - 1) = u"
    and cl: "closed_under g blocked tp s (take (front s - 1) (q s))"
    and cu: "\<forall>w < k. open_edge g blocked u w \<longrightarrow> w \<in> set (q s) \<and> before_eq (tp w) (tp u @ [w])"
    and nd: "dest \<notin> set (take (front s) (q s))"
    and ch: "\<forall>v \<in> set (q s). v \<noteq> src \<and> parent s v = int u \<longrightarrow> v < k"
    by (simp_all add: scan_inv_def)
  from iq yes(2) have knq: "k \<notin> set (q s)" by (auto simp: inv_queue_def)
  from iq have fl: "front s \<le> length (q s)" and srcq: "src \<in> set (q s)"
    and dq: "distinct (q s)" by (simp_all add: inv_queue_def)
  note uq = scan_inv_facts(1) [OF inv]
  have same: "tp' x = tp x" "parent s' x = parent s x" if "x \<in> set (q s)" for x
    using that knq by (auto simp: tp'_def s'_def)
  have qs': "q s' = q s @ [k]" "front s' = front s" by (simp_all add: s'_def)
  have tk: "take (front s) (q s') = take (front s) (q s)"
    "take (front s - 1) (q s') = take (front s - 1) (q s)"
    using fl by (simp_all add: qs')
  have tpk: "tp' k = tp u @ [k]" by (simp add: tp'_def)
  have tpu: "tp' u = tp u" using same uq by simp
  \<comment> \<open>the queue\<close>
  have iq': "inv_queue g src s'"
    using iq knq kn unfolding inv_queue_def s'_def by auto
  \<comment> \<open>the tree\<close>
  have t1: "tp' src = [src]" using it same srcq by (simp add: inv_tree_def)
  have t2: "\<exists>p \<in> set (take (front s') (q s')).
              parent s' v = int p \<and> open_edge g blocked p v \<and> tp' v = tp' p @ [v]"
    if v: "v \<in> set (q s')" "v \<noteq> src" for v
  proof (cases "v = k")
    case True
    have "u \<in> set (take (front s) (q s))" using scan_inv_facts(3) [OF inv] by simp
    moreover have "parent s' k = int u" by (simp add: s'_def)
    ultimately show ?thesis using True yes(1) tpk tpu tk qs' by auto
  next
    case False
    with v have vq: "v \<in> set (q s)" by (simp add: qs')
    with it v(2) obtain p where p: "p \<in> set (take (front s) (q s))"
      and pp: "parent s v = int p" "open_edge g blocked p v" "tp v = tp p @ [v]"
      unfolding inv_tree_def by blast
    from p have "p \<in> set (q s)" by (rule in_set_takeD)
    with same vq pp have "parent s' v = int p \<and> open_edge g blocked p v \<and> tp' v = tp' p @ [v]"
      by simp
    with p show ?thesis using tk qs' by auto
  qed
  have t3: "sorted_wrt (\<lambda>a b. before (tp' a) (tp' b)) (q s')"
  proof -
    from it have "sorted_wrt (\<lambda>a b. before (tp a) (tp b)) (q s)" by (simp add: inv_tree_def)
    then have "sorted_wrt (\<lambda>a b. before (tp' a) (tp' b)) (q s)"
      using same by (simp add: sorted_wrt_iff_nth_less)
    moreover have "before (tp' x) (tp' k)" if "x \<in> set (q s)" for x
      using before_new [OF inv that] same that tpk by simp
    ultimately show ?thesis by (simp add: qs' sorted_wrt_append)
  qed
  have t4: "walk g blocked (tp' v) \<and> hd (tp' v) = src \<and> last (tp' v) = v \<and>
        set (tp' v) \<subseteq> set (q s') \<and> distinct (tp' v)" if v: "v \<in> set (q s')" for v
  proof (cases "v = k")
    case True
    from it uq have wu: "walk g blocked (tp u)" "hd (tp u) = src" "last (tp u) = u"
      "set (tp u) \<subseteq> set (q s)" "distinct (tp u)" by (simp_all add: inv_tree_def)
    from wu(1) have ne: "tp u \<noteq> []" by (rule walk_nonempty)
    have "walk g blocked (tp u @ [k])" using wu yes(1) ne by (simp add: walk_snoc)
    moreover have "hd (tp u @ [k]) = src" using ne wu by simp
    moreover have "k \<notin> set (tp u)" using wu(4) knq by blast
    ultimately show ?thesis using True tpk wu by (auto simp: qs')
  next
    case False
    with v have vq: "v \<in> set (q s)" by (simp add: qs')
    with it have "walk g blocked (tp v) \<and> hd (tp v) = src \<and> last (tp v) = v \<and>
        set (tp v) \<subseteq> set (q s) \<and> distinct (tp v)" by (simp add: inv_tree_def)
    with same vq show ?thesis by (auto simp: qs')
  qed
  have it': "inv_tree g blocked src tp' s'"
    unfolding inv_tree_def using t1 t2 t3 t4 by blast
  \<comment> \<open>the nodes expanded before\<close>
  have cl': "closed_under g blocked tp' s' (take (front s' - 1) (q s'))"
    unfolding closed_under_def
  proof (intro ballI allI impI)
    fix x w
    assume x: "x \<in> set (take (front s' - 1) (q s'))" and e: "open_edge g blocked x w"
    from x have x': "x \<in> set (take (front s - 1) (q s))" using tk qs' by simp
    then have xq: "x \<in> set (q s)" by (rule in_set_takeD)
    from cl x' e have w: "w \<in> set (q s)" "before_eq (tp w) (tp x @ [w])"
      unfolding closed_under_def by blast+
    with same xq show "w \<in> set (q s') \<and> before_eq (tp' w) (tp' x @ [w])"
      by (simp add: qs')
  qed
  \<comment> \<open>the node being expanded\<close>
  have cu': "w \<in> set (q s') \<and> before_eq (tp' w) (tp' u @ [w])"
    if "w < Suc k" "open_edge g blocked u w" for w
  proof (cases "w = k")
    case True
    then show ?thesis using tpk tpu by (simp add: qs' before_eq_def)
  next
    case False
    with that have "w < k" by simp
    with cu that have w: "w \<in> set (q s)" "before_eq (tp w) (tp u @ [w])" by blast+
    with same tpu show ?thesis by (simp add: qs')
  qed
  have ch': "v < Suc k" if "v \<in> set (q s')" "v \<noteq> src" "parent s' v = int u" for v
  proof (cases "v = k")
    case True
    then show ?thesis by simp
  next
    case False
    with that have vq: "v \<in> set (q s)" by (simp add: qs')
    with same that have "parent s v = int u" by simp
    with ch vq that have "v < k" by blast
    then show ?thesis by simp
  qed
  have nd': "dest \<notin> set (take (front s') (q s'))" using nd tk qs' by simp
  from f0 fl have "front s - 1 < length (q s)" by simp
  then have fu': "0 < front s'" "q s' ! (front s' - 1) = u"
    using f0 fu by (simp_all add: qs' nth_append)
  show ?thesis
    unfolding scan_inv_def using iq' it' fu' cl' cu' nd' ch' by blast
qed

lemma scan_step:
  assumes "scan_inv g blocked src dest tp s u k" and "k < stationCount g"
  shows "\<exists>tp'. scan_inv g blocked src dest tp' (visit g blocked u s k) u (Suc k)"
proof (cases "open_edge g blocked u k \<and> visited s k = 0")
  case True
  with scan_step_new [OF assms] visit_eq [OF assms(2), of blocked u s] show ?thesis by auto
next
  case False
  with scan_step_same [OF assms(1)] visit_eq [OF assms(2), of blocked u s] show ?thesis by auto
qed


lemma scan_all:
  assumes "scan_inv g blocked src dest tp s u 0" and "m \<le> stationCount g"
  shows "\<exists>tp'. scan_inv g blocked src dest tp' (foldl (visit g blocked u) s [0..<m]) u m"
  using assms(2)
proof (induction m)
  case 0
  with assms(1) show ?case by auto
next
  case (Suc m)
  then obtain tp' where "scan_inv g blocked src dest tp' (foldl (visit g blocked u) s [0..<m]) u m"
    by auto
  from scan_step [OF this] Suc.prems show ?case by simp
qed

lemma scan_start:
  assumes inv: "loop_inv g blocked src dest tp s" and f: "front s < length (q s)"
    and nd: "q s ! front s \<noteq> dest"
  shows "scan_inv g blocked src dest tp (s\<lparr>front := front s + 1\<rparr>) (q s ! front s) 0"
proof -
  let ?u = "q s ! front s"
  from inv have iq: "inv_queue g src s" and it: "inv_tree g blocked src tp s"
    and cl: "closed_under g blocked tp s (take (front s) (q s))"
    and d: "dest \<notin> set (take (front s) (q s))" by (simp_all add: loop_inv_def)
  have tk: "take (Suc (front s)) (q s) = take (front s) (q s) @ [?u]"
    using f by (rule take_Suc_conv_app_nth)
  have iq': "inv_queue g src (s\<lparr>front := front s + 1\<rparr>)"
    using iq f by (simp add: inv_queue_def)
  have it': "inv_tree g blocked src tp (s\<lparr>front := front s + 1\<rparr>)"
    using it unfolding inv_tree_def by (simp add: tk)
  have cl': "closed_under g blocked tp (s\<lparr>front := front s + 1\<rparr>) (take (front s) (q s))"
    using cl by (simp add: closed_under_def)
  have d': "dest \<notin> set (take (Suc (front s)) (q s))" using d nd by (simp add: tk)
  have "distinct (take (front s) (q s) @ ?u # drop (Suc (front s)) (q s))"
    using iq id_take_nth_drop [OF f] by (simp add: inv_queue_def)
  then have un: "?u \<notin> set (take (front s) (q s))" by simp
  have ch: "False" if "v \<in> set (q s)" "v \<noteq> src" "parent s v = int ?u" for v
  proof -
    from it that obtain p where "p \<in> set (take (front s) (q s))" "parent s v = int p"
      unfolding inv_tree_def by blast
    with that(3) un show False by simp
  qed
  show ?thesis
    unfolding scan_inv_def using iq' it' cl' d' ch by auto
qed

lemma scan_end:
  assumes inv: "scan_inv g blocked src dest tp s u (stationCount g)"
  shows "loop_inv g blocked src dest tp s"
proof -
  have "closed_under g blocked tp s (take (front s) (q s))"
    unfolding closed_under_def
  proof (intro ballI allI impI)
    fix x w
    assume x: "x \<in> set (take (front s) (q s))" and e: "open_edge g blocked x w"
    from x scan_inv_facts(3) [OF inv] have "x = u \<or> x \<in> set (take (front s - 1) (q s))" by auto
    then show "w \<in> set (q s) \<and> before_eq (tp w) (tp x @ [w])"
    proof
      assume "x = u"
      moreover from e have "w < stationCount g" by (simp add: open_edge_def)
      ultimately show ?thesis using inv e unfolding scan_inv_def by blast
    next
      assume "x \<in> set (take (front s - 1) (q s))"
      with inv e show ?thesis unfolding scan_inv_def closed_under_def by blast
    qed
  qed
  with inv show ?thesis by (simp add: loop_inv_def scan_inv_def)
qed

lemma expand_inv:
  assumes inv: "loop_inv g blocked src dest tp s" and f: "front s < length (q s)"
    and nd: "q s ! front s \<noteq> dest"
  shows "\<exists>tp'. loop_inv g blocked src dest tp'
           (expand g blocked (q s ! front s) (s\<lparr>front := front s + 1\<rparr>))"
proof -
  from scan_all [OF scan_start [OF assms], of "stationCount g"] obtain tp'
    where "scan_inv g blocked src dest tp'
      (foldl (visit g blocked (q s ! front s)) (s\<lparr>front := front s + 1\<rparr>) [0..<stationCount g])
      (q s ! front s) (stationCount g)" by auto
  from scan_end [OF this] show ?thesis unfolding expand_def by blast
qed

lemma init_inv:
  "loop_inv g blocked src dest (\<lambda>v. [src])
     \<lparr>visited = (\<lambda>v. 0)(src := 1), q = [src], front = 0, parent = parent0(src := - 1)\<rparr>"
  by (simp add: loop_inv_def inv_queue_def inv_tree_def closed_under_def)

text \<open>The loop ends in a state of the invariant: at the destination, or with the queue used up.\<close>

lemma bfs_loop_final:
  assumes "loop_inv g blocked src dest tp s"
  shows "\<exists>tp' s'. loop_inv g blocked src dest tp' s' \<and>
    ((front s' < length (q s') \<and> q s' ! front s' = dest \<and>
        bfs_loop g dest blocked s = (True, parent s')) \<or>
     (front s' = length (q s') \<and> bfs_loop g dest blocked s = (False, parent s')))"
  using assms
proof (induction g dest blocked s arbitrary: tp rule: bfs_loop.induct)
  case (1 g dest blocked s)
  show ?case
  proof (cases "front s < length (q s)")
    case False
    with "1.prems" have "front s = length (q s)" by (simp add: loop_inv_def inv_queue_def)
    moreover from False have "bfs_loop g dest blocked s = (False, parent s)"
      by (subst bfs_loop.simps) simp
    ultimately show ?thesis using "1.prems" by blast
  next
    case True
    show ?thesis
    proof (cases "q s ! front s = dest")
      case d: True
      with True have "bfs_loop g dest blocked s = (True, parent s)"
        by (subst bfs_loop.simps) (simp add: Let_def)
      with True d "1.prems" show ?thesis by blast
    next
      case d: False
      from expand_inv [OF "1.prems" True d] obtain tp' where
        "loop_inv g blocked src dest tp' (expand g blocked (q s ! front s) (s\<lparr>front := front s + 1\<rparr>))"
        by blast
      from "1.IH" [OF True refl refl d this]
      obtain tp'' s' where "loop_inv g blocked src dest tp'' s'"
        and "(front s' < length (q s') \<and> q s' ! front s' = dest \<and>
           bfs_loop g dest blocked (expand g blocked (q s ! front s) (s\<lparr>front := front s + 1\<rparr>))
             = (True, parent s')) \<or>
         (front s' = length (q s') \<and>
           bfs_loop g dest blocked (expand g blocked (q s ! front s) (s\<lparr>front := front s + 1\<rparr>))
             = (False, parent s'))" by blast
      moreover have "bfs_loop g dest blocked s =
          bfs_loop g dest blocked (expand g blocked (q s ! front s) (s\<lparr>front := front s + 1\<rparr>))"
        using True d by (subst bfs_loop.simps) (simp add: Let_def)
      ultimately show ?thesis by auto
    qed
  qed
qed

lemma before_eq_trans: "before_eq a b \<Longrightarrow> before_eq b c \<Longrightarrow> before_eq a c"
  unfolding before_eq_def using before_trans by blast

lemma before_eq_snoc_one: "a \<noteq> [] \<Longrightarrow> before_eq b a \<Longrightarrow> before b (a @ [x])"
  using before_append_one before_eq_trans1 by blast

subsection \<open>The result\<close>

definition route_from_to ::
  "network \<Rightarrow> (nat \<times> nat) list \<Rightarrow> nat \<Rightarrow> nat \<Rightarrow> nat list \<Rightarrow> bool" where
  "route_from_to g blocked src dest p = (walk g blocked p \<and> hd p = src \<and> last p = dest)"

text \<open>
  Every walk from the source ends at a queued node whose tree path is not after it, or
  some node still waiting in the queue has a tree path before it.
\<close>

lemma frontier:
  assumes inv: "loop_inv g blocked src dest tp s"
  shows "walk g blocked P \<Longrightarrow> hd P = src \<Longrightarrow>
    (last P \<in> set (q s) \<and> before_eq (tp (last P)) P) \<or>
    (\<exists>y \<in> set (drop (front s) (q s)). before (tp y) P)"
proof (induction P rule: rev_induct)
  case Nil
  then show ?case by simp
next
  case (snoc w P)
  from inv have iq: "inv_queue g src s" and it: "inv_tree g blocked src tp s"
    and cl: "closed_under g blocked tp s (take (front s) (q s))" by (simp_all add: loop_inv_def)
  show ?case
  proof (cases "P = []")
    case True
    with snoc.prems have "w = src" by simp
    moreover from iq it have "src \<in> set (q s)" "tp src = [src]"
      by (simp_all add: inv_queue_def inv_tree_def)
    ultimately show ?thesis using True by (simp add: before_eq_def)
  next
    case False
    with snoc.prems have wP: "walk g blocked P" and e: "open_edge g blocked (last P) w"
      and h: "hd P = src" by (simp_all add: walk_snoc)
    from snoc.IH [OF wP h] show ?thesis
    proof
      assume a: "last P \<in> set (q s) \<and> before_eq (tp (last P)) P"
      have "set (q s) = set (take (front s) (q s)) \<union> set (drop (front s) (q s))"
        by (metis append_take_drop_id set_append)
      with a have "last P \<in> set (take (front s) (q s)) \<or> last P \<in> set (drop (front s) (q s))"
        by blast
      then show ?thesis
      proof
        assume "last P \<in> set (take (front s) (q s))"
        with cl e have w: "w \<in> set (q s)" "before_eq (tp w) (tp (last P) @ [w])"
          unfolding closed_under_def by blast+
        from a have "before_eq (tp (last P) @ [w]) (P @ [w])" using before_eq_snoc by blast
        with w show ?thesis using before_eq_trans by force
      next
        assume p: "last P \<in> set (drop (front s) (q s))"
        from a False have "before (tp (last P)) (P @ [w])" using before_eq_snoc_one by blast
        with p show ?thesis by blast
      qed
    next
      assume "\<exists>y \<in> set (drop (front s) (q s)). before (tp y) P"
      then obtain y where y: "y \<in> set (drop (front s) (q s))" "before (tp y) P" by blast
      from y(2) False have "before (tp y) (P @ [w])"
        using before_append_one before_trans by blast
      with y(1) show ?thesis by blast
    qed
  qed
qed

lemma found_least:
  assumes inv: "loop_inv g blocked src dest tp s" and f: "front s < length (q s)"
    and d: "q s ! front s = dest" and P: "route_from_to g blocked src dest P"
  shows "before_eq (tp dest) P"
proof -
  from P have w: "walk g blocked P" "hd P = src" "last P = dest" by (simp_all add: route_from_to_def)
  from frontier [OF inv w(1) w(2)] show ?thesis
  proof
    assume "last P \<in> set (q s) \<and> before_eq (tp (last P)) P"
    with w(3) show ?thesis by simp
  next
    assume "\<exists>y \<in> set (drop (front s) (q s)). before (tp y) P"
    then obtain y where y: "y \<in> set (drop (front s) (q s))" "before (tp y) P" by blast
    have dr: "drop (front s) (q s) = dest # drop (Suc (front s)) (q s)"
      using Cons_nth_drop_Suc [OF f] d by simp
    show ?thesis
    proof (cases "y = dest")
      case True
      with y(2) show ?thesis by (simp add: before_eq_def)
    next
      case False
      with y(1) dr have yd: "y \<in> set (drop (Suc (front s)) (q s))" by simp
      from inv have "sorted_wrt (\<lambda>a b. before (tp a) (tp b)) (q s)"
        by (simp add: loop_inv_def inv_tree_def)
      then have "sorted_wrt (\<lambda>a b. before (tp a) (tp b))
          (take (front s) (q s) @ dest # drop (Suc (front s)) (q s))"
        using id_take_nth_drop [OF f] d by simp
      with yd have "before (tp dest) (tp y)" by (simp add: sorted_wrt_append)
      with y(2) show ?thesis using before_trans by (auto simp: before_eq_def)
    qed
  qed
qed

lemma found_route:
  assumes inv: "loop_inv g blocked src dest tp s" and f: "front s < length (q s)"
    and d: "q s ! front s = dest"
  shows "route_from_to g blocked src dest (tp dest) \<and> distinct (tp dest) \<and>
         length (tp dest) \<le> length (q s)"
proof -
  from f d have dq: "dest \<in> set (q s)" using nth_mem by blast
  with inv have t: "walk g blocked (tp dest)" "hd (tp dest) = src" "last (tp dest) = dest"
    "set (tp dest) \<subseteq> set (q s)" "distinct (tp dest)" by (simp_all add: loop_inv_def inv_tree_def)
  from inv have "distinct (q s)" by (simp add: loop_inv_def inv_queue_def)
  then have "card (set (q s)) = length (q s)" by (rule distinct_card)
  moreover from t(5) have "card (set (tp dest)) = length (tp dest)" by (rule distinct_card)
  moreover from t(4) have "card (set (tp dest)) \<le> card (set (q s))" by (simp add: card_mono)
  ultimately have "length (tp dest) \<le> length (q s)" by simp
  with t show ?thesis by (simp add: route_from_to_def)
qed

lemma exhausted_no_route:
  assumes inv: "loop_inv g blocked src dest tp s" and f: "front s = length (q s)"
  shows "\<not> route_from_to g blocked src dest P"
proof
  assume "route_from_to g blocked src dest P"
  then have w: "walk g blocked P" "hd P = src" "last P = dest" by (simp_all add: route_from_to_def)
  from inv f have "dest \<notin> set (q s)" by (simp add: loop_inv_def)
  with frontier [OF inv w(1) w(2)] w(3) f show False by simp
qed

lemma queue_length:
  assumes inv: "loop_inv g blocked src dest tp s" and "src < stationCount g"
  shows "length (q s) \<le> stationCount g"
proof -
  from inv assms(2) have "set (q s) \<subseteq> {..<stationCount g}"
    by (auto simp: loop_inv_def inv_queue_def)
  then have "card (set (q s)) \<le> card {..<stationCount g}" by (intro card_mono) simp_all
  moreover from inv have "distinct (q s)" by (simp add: loop_inv_def inv_queue_def)
  then have "card (set (q s)) = length (q s)" by (rule distinct_card)
  ultimately show ?thesis by simp
qed

lemma follow_parents_tree:
  assumes inv: "loop_inv g blocked src dest tp s"
  shows "v \<in> set (q s) \<Longrightarrow> length (tp v) \<le> n \<Longrightarrow>
         follow_parents n (parent s) (int v) = Some (rev (tp v))"
proof (induction n arbitrary: v)
  case 0
  from inv "0.prems"(1) have "walk g blocked (tp v)" by (simp add: loop_inv_def inv_tree_def)
  moreover from "0.prems"(2) have "tp v = []" by simp
  ultimately show ?case by simp
next
  case (Suc n)
  show ?case
  proof (cases "v = src")
    case True
    with inv have "parent s v = - 1" "tp v = [v]"
      by (simp_all add: loop_inv_def inv_queue_def inv_tree_def)
    then show ?thesis by (cases n) simp_all
  next
    case False
    with inv Suc.prems(1) obtain u where u: "u \<in> set (take (front s) (q s))"
      and p: "parent s v = int u" "tp v = tp u @ [v]"
      unfolding loop_inv_def inv_tree_def by blast
    from u have "u \<in> set (q s)" by (rule in_set_takeD)
    moreover from p(2) Suc.prems(2) have "length (tp u) \<le> n" by simp
    ultimately have "follow_parents n (parent s) (int u) = Some (rev (tp u))" by (rule Suc.IH)
    with p show ?thesis by simp
  qed
qed

text \<open>The two outcomes of the search, for a source that is a station of a table within its bound.\<close>

lemma shortest_path_cases:
  assumes "stationCount g \<le> MAX_STATIONS" and "src < stationCount g"
  shows "(shortest_path g src dest blocked = NoRoute \<and>
            (\<forall>P. \<not> route_from_to g blocked src dest P)) \<or>
         (\<exists>p. shortest_path g src dest blocked = Route p \<and>
            route_from_to g blocked src dest p \<and> distinct p \<and>
            (\<forall>P. route_from_to g blocked src dest P \<longrightarrow> before_eq p P))"
proof -
  let ?s0 = "\<lparr>visited = (\<lambda>v. 0)(src := 1), q = [src], front = 0, parent = (\<lambda>i. - 1)(src := - 1)\<rparr>"
  from bfs_loop_final [OF init_inv [of g blocked src dest "\<lambda>i. - 1"]]
  obtain tp s where inv: "loop_inv g blocked src dest tp s"
    and r: "(front s < length (q s) \<and> q s ! front s = dest \<and>
        bfs_loop g dest blocked ?s0 = (True, parent s)) \<or>
     (front s = length (q s) \<and> bfs_loop g dest blocked ?s0 = (False, parent s))" by blast
  from r show ?thesis
  proof
    assume a: "front s < length (q s) \<and> q s ! front s = dest \<and>
        bfs_loop g dest blocked ?s0 = (True, parent s)"
    then have f: "front s < length (q s)" and d: "q s ! front s = dest" by simp_all
    note fr = found_route [OF inv f d]
    from f d have dq: "dest \<in> set (q s)" using nth_mem by blast
    from fr queue_length [OF inv assms(2)] assms(1) have "length (tp dest) \<le> MAX_STATIONS" by simp
    from follow_parents_tree [OF inv dq this]
    have "reconstruct (parent s) dest = Some (tp dest)" by (simp add: reconstruct_def)
    with a have "shortest_path g src dest blocked = Route (tp dest)"
      by (simp add: shortest_path_def bfs_with_blocked_edges_def)
    moreover have "\<forall>P. route_from_to g blocked src dest P \<longrightarrow> before_eq (tp dest) P"
      using found_least [OF inv f d] by blast
    ultimately show ?thesis using fr by blast
  next
    assume a: "front s = length (q s) \<and> bfs_loop g dest blocked ?s0 = (False, parent s)"
    then have "shortest_path g src dest blocked = NoRoute"
      by (simp add: shortest_path_def bfs_with_blocked_edges_def)
    moreover have "\<forall>P. \<not> route_from_to g blocked src dest P"
      using exhausted_no_route [OF inv] a by blast
    ultimately show ?thesis by blast
  qed
qed

section \<open>Routes\<close>

text \<open>
  The loop over the blocked pairs answers whether the pair, in one orientation or the
  other, is in the list.
\<close>

lemma edge_blocked_iff:
  "edge_blocked blocked u v \<longleftrightarrow> (u, v) \<in> set blocked \<or> (v, u) \<in> set blocked"
  by (induction blocked u v rule: edge_blocked.induct) auto

text \<open>
  A route under a set of blocked edges: a non-empty sequence of ids whose consecutive
  pairs are edges of the matrix, none of them in the blocked set in either orientation.
\<close>

fun route_ok :: "network \<Rightarrow> (nat \<times> nat) list \<Rightarrow> nat list \<Rightarrow> bool" where
  "route_ok g blocked [] = False"
| "route_ok g blocked [x] = True"
| "route_ok g blocked (x # y # r) =
     (adj g x y \<noteq> 0 \<and> (x, y) \<notin> set blocked \<and> (y, x) \<notin> set blocked \<and>
      route_ok g blocked (y # r))"

lemma walk_route_ok: "wf_network g \<Longrightarrow> walk g blocked p = route_ok g blocked p"
  by (induction p rule: route_ok.induct [where ?a0.0 = g and ?a1.0 = blocked])
     (auto simp: open_edge_def wf_network_def edge_blocked_iff)

lemma route_ok_unblocked: "route_ok g blocked p \<Longrightarrow> route_ok g [] p"
  by (induction p rule: route_ok.induct [where ?a0.0 = g and ?a1.0 = blocked]) auto

lemma route_ok_pairs:
  "route_ok g blocked p \<longleftrightarrow>
     p \<noteq> [] \<and> (\<forall>i. i + 1 < length p \<longrightarrow>
        adj g (p ! i) (p ! (i + 1)) \<noteq> 0 \<and>
        (p ! i, p ! (i + 1)) \<notin> set blocked \<and> (p ! (i + 1), p ! i) \<notin> set blocked)"
proof (induction p rule: route_ok.induct [where ?a0.0 = g and ?a1.0 = blocked])
  case (1 g blocked)
  then show ?case by simp
next
  case (2 g blocked x)
  then show ?case by simp
next
  case (3 g blocked x y r)
  have "(\<forall>i. i + 1 < length (x # y # r) \<longrightarrow> Q i) \<longleftrightarrow>
        Q 0 \<and> (\<forall>i. i + 1 < length (y # r) \<longrightarrow> Q (Suc i))" for Q
  proof
    assume a: "\<forall>i. i + 1 < length (x # y # r) \<longrightarrow> Q i"
    then have "Q 0" by simp
    moreover have "\<forall>i. i + 1 < length (y # r) \<longrightarrow> Q (Suc i)" using a by simp
    ultimately show "Q 0 \<and> (\<forall>i. i + 1 < length (y # r) \<longrightarrow> Q (Suc i))" ..
  next
    assume a: "Q 0 \<and> (\<forall>i. i + 1 < length (y # r) \<longrightarrow> Q (Suc i))"
    show "\<forall>i. i + 1 < length (x # y # r) \<longrightarrow> Q i"
    proof (intro allI impI)
      fix i assume "i + 1 < length (x # y # r)"
      then show "Q i" using a by (cases i) simp_all
    qed
  qed
  note split = this [of "\<lambda>i. adj g ((x # y # r) ! i) ((x # y # r) ! (i + 1)) \<noteq> 0 \<and>
        ((x # y # r) ! i, (x # y # r) ! (i + 1)) \<notin> set blocked \<and>
        ((x # y # r) ! (i + 1), (x # y # r) ! i) \<notin> set blocked"]
  show ?case unfolding split using 3 by simp
qed

lemma before_eq_length: "before_eq a b \<Longrightarrow> length a \<le> length b"
  unfolding before_eq_def using before_length by auto

lemma before_eq_lex:
  "before_eq a b \<Longrightarrow> length a = length b \<Longrightarrow> a = b \<or> (a, b) \<in> lex less_than"
  by (auto simp: before_eq_def before_def lenlex_conv)

lemma shortest_path_routes:
  assumes "wf_network g" and "src < stationCount g"
  shows "(shortest_path g src dest blocked = NoRoute \<and>
            (\<forall>p. \<not> (route_ok g blocked p \<and> hd p = src \<and> last p = dest))) \<or>
         (\<exists>p. shortest_path g src dest blocked = Route p \<and>
            route_ok g blocked p \<and> hd p = src \<and> last p = dest \<and> distinct p \<and>
            (\<forall>p'. route_ok g blocked p' \<and> hd p' = src \<and> last p' = dest \<longrightarrow> before_eq p p'))"
proof -
  from assms(1) have m: "stationCount g \<le> MAX_STATIONS" by (simp add: wf_network_def)
  from shortest_path_cases [OF m assms(2), of dest blocked] show ?thesis
    unfolding route_from_to_def walk_route_ok [OF assms(1)] by blast
qed

text \<open>
  C1. On a network within the bound of its tables whose edges join stations of the
  table (the built network is one, \<open>build_network_ok\<close>) and for a source that is a
  station: the search reports no route exactly when no route from the source to the
  destination avoids the blocked edges; it never overruns the path buffer; and a route
  it returns goes from the source to the destination, each of its consecutive pairs
  is an edge of the matrix and is not in the blocked list in either orientation, it
  has the least number of hops, and among the routes with that number of hops it is
  the lexicographically least sequence of station ids, which is how scanning the
  neighbours in increasing id order breaks ties.
\<close>

theorem shortest_path_correct:
  assumes "wf_network g" and "src < stationCount g"
  shows "(shortest_path g src dest blocked = NoRoute \<longleftrightarrow>
            \<not> (\<exists>p. route_ok g blocked p \<and> hd p = src \<and> last p = dest)) \<and>
         shortest_path g src dest blocked \<noteq> PathOverflow \<and>
         (\<forall>p. shortest_path g src dest blocked = Route p \<longrightarrow>
            route_ok g blocked p \<and> hd p = src \<and> last p = dest \<and>
            (\<forall>i. i + 1 < length p \<longrightarrow>
               adj g (p ! i) (p ! (i + 1)) \<noteq> 0 \<and>
               (p ! i, p ! (i + 1)) \<notin> set blocked \<and> (p ! (i + 1), p ! i) \<notin> set blocked) \<and>
            (\<forall>p'. route_ok g blocked p' \<and> hd p' = src \<and> last p' = dest \<longrightarrow>
               length p \<le> length p' \<and>
               (length p = length p' \<longrightarrow> p = p' \<or> (p, p') \<in> lex less_than)))"
proof -
  from shortest_path_routes [OF assms, of dest blocked] show ?thesis
  proof
    assume "shortest_path g src dest blocked = NoRoute \<and>
            (\<forall>p. \<not> (route_ok g blocked p \<and> hd p = src \<and> last p = dest))"
    then show ?thesis by simp
  next
    assume "\<exists>p. shortest_path g src dest blocked = Route p \<and>
            route_ok g blocked p \<and> hd p = src \<and> last p = dest \<and> distinct p \<and>
            (\<forall>p'. route_ok g blocked p' \<and> hd p' = src \<and> last p' = dest \<longrightarrow> before_eq p p')"
    then obtain p where p: "shortest_path g src dest blocked = Route p"
      "route_ok g blocked p" "hd p = src" "last p = dest"
      and least: "\<forall>p'. route_ok g blocked p' \<and> hd p' = src \<and> last p' = dest \<longrightarrow> before_eq p p'"
      by blast
    have "length p \<le> length p' \<and> (length p = length p' \<longrightarrow> p = p' \<or> (p, p') \<in> lex less_than)"
      if "route_ok g blocked p'" "hd p' = src" "last p' = dest" for p'
    proof -
      from least that have "before_eq p p'" by blast
      then show ?thesis using before_eq_length before_eq_lex by blast
    qed
    moreover from p(2) have "\<forall>i. i + 1 < length p \<longrightarrow>
               adj g (p ! i) (p ! (i + 1)) \<noteq> 0 \<and>
               (p ! i, p ! (i + 1)) \<notin> set blocked \<and> (p ! (i + 1), p ! i) \<notin> set blocked"
      by (simp add: route_ok_pairs)
    ultimately show ?thesis using p by auto
  qed
qed

lemma follow_parents_end: "follow_parents n par (- 1) = Some []"
  by (cases n) simp_all

text \<open>
  C8. From a station to itself the search succeeds with the one-station path, whatever
  the blocked edges.
\<close>

theorem shortest_path_same: "shortest_path g s s blocked = Route [s]"
proof -
  have "bfs_with_blocked_edges g s s (\<lambda>i. - 1) blocked = (True, (\<lambda>i. - 1)(s := - 1))"
    unfolding bfs_with_blocked_edges_def by (subst bfs_loop.simps) (simp add: Let_def)
  moreover have "follow_parents (Suc n) ((\<lambda>i. - 1)(s := - 1)) (int s) = Some [s]" for n
    by (simp add: follow_parents_end)
  then have "follow_parents MAX_STATIONS ((\<lambda>i. - 1)(s := - 1)) (int s) = Some [s]"
    by (metis MAX_STATIONS_def numeral_eq_Suc)
  ultimately show ?thesis
    by (simp add: shortest_path_def reconstruct_def)
qed

section \<open>Alternates\<close>

lemma route_equals_iff: "route_equals a b \<longleftrightarrow> a = b"
proof -
  have "route_equals a b \<longleftrightarrow> length a = length b \<and> (\<forall>i < length a. a ! i = b ! i)"
    by (auto simp: route_equals_def list_all_iff)
  then show ?thesis by (simp add: list_eq_iff_nth_eq)
qed

lemma list_ex_route_equals: "list_ex (route_equals p) alts \<longleftrightarrow> p \<in> set alts"
  by (simp add: list_ex_iff route_equals_iff)

lemma shortest_path_no_overflow:
  assumes "wf_network g" and "src < stationCount g"
  shows "shortest_path g src dest blocked \<noteq> PathOverflow"
proof -
  from shortest_path_routes [OF assms, of dest blocked]
  have "shortest_path g src dest blocked = NoRoute \<or>
        (\<exists>p. shortest_path g src dest blocked = Route p)" by blast
  then show ?thesis
  proof
    assume "shortest_path g src dest blocked = NoRoute"
    then show ?thesis by simp
  next
    assume "\<exists>p. shortest_path g src dest blocked = Route p"
    then obtain p where "shortest_path g src dest blocked = Route p" ..
    then show ?thesis by simp
  qed
qed

lemma shortest_path_route:
  assumes "wf_network g" and "src < stationCount g"
    and r: "shortest_path g src dest blocked = Route p"
  shows "route_ok g blocked p \<and> hd p = src \<and> last p = dest"
proof -
  from shortest_path_routes [OF assms(1,2), of dest blocked]
  have "shortest_path g src dest blocked = NoRoute \<or>
        (\<exists>p'. shortest_path g src dest blocked = Route p' \<and>
           route_ok g blocked p' \<and> hd p' = src \<and> last p' = dest)" by blast
  then show ?thesis
  proof
    assume "shortest_path g src dest blocked = NoRoute"
    with r show ?thesis by simp
  next
    assume "\<exists>p'. shortest_path g src dest blocked = Route p' \<and>
           route_ok g blocked p' \<and> hd p' = src \<and> last p' = dest"
    then obtain p' where "shortest_path g src dest blocked = Route p'"
      "route_ok g blocked p' \<and> hd p' = src \<and> last p' = dest" by blast
    with r show ?thesis by simp
  qed
qed

text \<open>The search that \<^verbatim>\<open>find_alternates\<close> runs with the edge \<open>e\<close> of the primary path blocked.\<close>

definition blocked_search :: "network \<Rightarrow> nat list \<Rightarrow> nat \<Rightarrow> route" where
  "blocked_search g primary e =
     shortest_path g (primary ! 0) (primary ! (length primary - 1))
       [(primary ! e, primary ! (e + 1))]"

text \<open>
  The loop, started with the alternates \<open>alts\<close> before the edges \<open>es\<close>: it appends the
  paths \<open>new\<close>, each the result of the search with an edge \<open>f\<close> of \<open>fs\<close> blocked and of no
  earlier edge of \<open>es\<close>; and the result of every edge of \<open>es\<close> is among the alternates
  unless the loop stopped, full, before that edge.
\<close>

definition first_from :: "network \<Rightarrow> nat list \<Rightarrow> nat list \<Rightarrow> nat \<Rightarrow> nat list \<Rightarrow> bool" where
  "first_from g primary es f a =
     (f \<in> set es \<and> blocked_search g primary f = Route a \<and>
      (\<forall>e \<in> set es. e < f \<longrightarrow> blocked_search g primary e \<noteq> Route a))"

definition all_found ::
  "network \<Rightarrow> nat list \<Rightarrow> nat list \<Rightarrow> nat list \<Rightarrow> nat list list \<Rightarrow> bool" where
  "all_found g primary es fs alts =
     (\<forall>e \<in> set es. \<forall>p. blocked_search g primary e = Route p \<longrightarrow> p \<noteq> primary \<longrightarrow>
        p \<in> set alts \<or> (MAX_ALTERNATES \<le> length alts \<and> (fs = [] \<or> last fs < e)))"

lemma alternates_loop_props:
  assumes "wf_network g" and "primary ! 0 < stationCount g"
  shows "sorted_wrt (<) es \<Longrightarrow>
    \<exists>new fs. alternates_loop g primary es alts = Some (alts @ new) \<and>
      length (alts @ new) \<le> max (length alts) MAX_ALTERNATES \<and>
      distinct new \<and> set new \<inter> set alts = {} \<and> primary \<notin> set new \<and>
      sorted_wrt (<) fs \<and> list_all2 (first_from g primary es) fs new \<and>
      all_found g primary es fs (alts @ new)"
proof (induction es arbitrary: alts)
  case Nil
  have "alternates_loop g primary [] alts = Some (alts @ []) \<and>
      length (alts @ []) \<le> max (length alts) MAX_ALTERNATES \<and>
      distinct ([]::nat list list) \<and> set [] \<inter> set alts = {} \<and> primary \<notin> set [] \<and>
      sorted_wrt (<) ([]::nat list) \<and> list_all2 (first_from g primary []) [] [] \<and>
      all_found g primary [] [] (alts @ [])" by (simp add: all_found_def)
  then show ?case by blast
next
  case (Cons e es)
  from Cons.prems have se: "sorted_wrt (<) es" and lt: "\<forall>x \<in> set es. e < x" by simp_all
  note IH = Cons.IH [OF se]
  show ?case
  proof (cases "length alts < MAX_ALTERNATES")
    case False
    then have "alternates_loop g primary (e # es) alts = Some (alts @ []) \<and>
      length (alts @ []) \<le> max (length alts) MAX_ALTERNATES \<and>
      distinct ([]::nat list list) \<and> set [] \<inter> set alts = {} \<and> primary \<notin> set [] \<and>
      sorted_wrt (<) ([]::nat list) \<and> list_all2 (first_from g primary (e # es)) [] [] \<and>
      all_found g primary (e # es) [] (alts @ [])" by (simp add: all_found_def)
    then show ?thesis by blast
  next
    case True
    let ?r = "blocked_search g primary e"
    have skip: ?thesis
      if same: "alternates_loop g primary (e # es) alts = alternates_loop g primary es alts"
        and old: "\<forall>p. ?r = Route p \<longrightarrow> p = primary \<or> p \<in> set alts"
    proof -
      from IH [of alts] obtain new fs where
        n: "alternates_loop g primary es alts = Some (alts @ new)"
        "length (alts @ new) \<le> max (length alts) MAX_ALTERNATES"
        "distinct new" "set new \<inter> set alts = {}" "primary \<notin> set new"
        "sorted_wrt (<) fs" "list_all2 (first_from g primary es) fs new"
        "all_found g primary es fs (alts @ new)" by blast
      from n(1) same have 1: "alternates_loop g primary (e # es) alts = Some (alts @ new)" by simp
      have "first_from g primary (e # es) f a" if "f \<in> set fs" "a \<in> set new"
        "first_from g primary es f a" for f a
      proof -
        from that(2) n(4) n(5) have "a \<noteq> primary" "a \<notin> set alts" by auto
        with old have "?r \<noteq> Route a" by blast
        with that(3) show ?thesis by (simp add: first_from_def)
      qed
      with n(7) have 7: "list_all2 (first_from g primary (e # es)) fs new"
        by (rule list.rel_mono_strong)
      have 8: "all_found g primary (e # es) fs (alts @ new)"
        using n(8) old unfolding all_found_def by auto
      from 1 n(2) n(3) n(4) n(5) n(6) 7 8 show ?thesis by blast
    qed
    have "?r \<noteq> PathOverflow"
      unfolding blocked_search_def by (rule shortest_path_no_overflow [OF assms])
    then have "?r = NoRoute \<or> (\<exists>p. ?r = Route p)" by (cases ?r) simp_all
    then show ?thesis
    proof
      assume nr: "?r = NoRoute"
      with True have "alternates_loop g primary (e # es) alts = alternates_loop g primary es alts"
        by (simp add: blocked_search_def)
      moreover from nr have "\<forall>p. ?r = Route p \<longrightarrow> p = primary \<or> p \<in> set alts" by simp
      ultimately show ?thesis by (rule skip)
    next
      assume "\<exists>p. ?r = Route p"
      then obtain p where p: "?r = Route p" by blast
      show ?thesis
      proof (cases "p = primary \<or> p \<in> set alts")
        case dup: True
        with True p have "alternates_loop g primary (e # es) alts = alternates_loop g primary es alts"
          by (auto simp: blocked_search_def route_equals_iff list_ex_route_equals)
        moreover from dup p have "\<forall>p. ?r = Route p \<longrightarrow> p = primary \<or> p \<in> set alts" by simp
        ultimately show ?thesis by (rule skip)
      next
        case new: False
        with True p have a: "alternates_loop g primary (e # es) alts =
            alternates_loop g primary es (alts @ [p])"
          by (simp add: blocked_search_def route_equals_iff list_ex_route_equals)
        from IH [of "alts @ [p]"] obtain new' fs' where
          n: "alternates_loop g primary es (alts @ [p]) = Some ((alts @ [p]) @ new')"
          "length ((alts @ [p]) @ new') \<le> max (length (alts @ [p])) MAX_ALTERNATES"
          "distinct new'" "set new' \<inter> set (alts @ [p]) = {}" "primary \<notin> set new'"
          "sorted_wrt (<) fs'" "list_all2 (first_from g primary es) fs' new'"
          "all_found g primary es fs' ((alts @ [p]) @ new')" by blast
        have sub: "set fs' \<subseteq> set es"
          using n(7) by (auto simp: list_all2_conv_all_nth first_from_def in_set_conv_nth)
        have 1: "alternates_loop g primary (e # es) alts = Some (alts @ (p # new'))"
          using a n(1) by simp
        have 2: "length (alts @ (p # new')) \<le> max (length alts) MAX_ALTERNATES"
          using n(2) True by simp
        have 3: "distinct (p # new')" using n(3) n(4) by auto
        have 4: "set (p # new') \<inter> set alts = {}" using n(4) new by auto
        have 5: "primary \<notin> set (p # new')" using n(5) new by auto
        have 6: "sorted_wrt (<) (e # fs')" using n(6) sub lt by auto
        have "first_from g primary (e # es) f a" if "f \<in> set fs'" "a \<in> set new'"
          "first_from g primary es f a" for f a
        proof -
          from that(2) n(4) have "a \<noteq> p" by auto
          with p have "?r \<noteq> Route a" by simp
          with that(3) show ?thesis by (simp add: first_from_def)
        qed
        with n(7) have "list_all2 (first_from g primary (e # es)) fs' new'"
          by (rule list.rel_mono_strong)
        moreover have "first_from g primary (e # es) e p"
          using p lt by (auto simp: first_from_def)
        ultimately have 7: "list_all2 (first_from g primary (e # es)) (e # fs') (p # new')"
          by simp
        have 8: "all_found g primary (e # es) (e # fs') (alts @ (p # new'))"
          unfolding all_found_def
        proof (intro ballI allI impI)
          fix e' p'
          assume e': "e' \<in> set (e # es)" and r: "blocked_search g primary e' = Route p'"
            and np: "p' \<noteq> primary"
          show "p' \<in> set (alts @ p # new') \<or>
                (MAX_ALTERNATES \<le> length (alts @ p # new') \<and>
                 (e # fs' = [] \<or> last (e # fs') < e'))"
          proof (cases "e' = e")
            case True
            with r p show ?thesis by simp
          next
            case False
            with e' have in_es: "e' \<in> set es" by simp
            with n(8) r np have "p' \<in> set ((alts @ [p]) @ new') \<or>
               (MAX_ALTERNATES \<le> length ((alts @ [p]) @ new') \<and> (fs' = [] \<or> last fs' < e'))"
              unfolding all_found_def by blast
            moreover from in_es lt have "e < e'" by blast
            ultimately show ?thesis by auto
          qed
        qed
        from 1 2 3 4 5 6 7 8 show ?thesis by blast
      qed
    qed
  qed
qed

text \<open>What \<^verbatim>\<open>find_alternates\<close> returns, for a primary path of station ids.\<close>

lemma find_alternates_props:
  assumes wf: "wf_network g" and ids: "\<forall>a \<in> set primary. a < stationCount g"
  shows "\<exists>alts es. find_alternates g primary = Some alts \<and>
    length alts \<le> MAX_ALTERNATES \<and> distinct alts \<and> primary \<notin> set alts \<and>
    sorted_wrt (<) es \<and>
    list_all2 (first_from g primary [0..<length primary - 1]) es alts \<and>
    all_found g primary [0..<length primary - 1] es alts"
proof (cases "primary = []")
  case True
  have "find_alternates g [] = Some [] \<and> length ([]::nat list list) \<le> MAX_ALTERNATES \<and>
    distinct ([]::nat list list) \<and> [] \<notin> set ([]::nat list list) \<and>
    sorted_wrt (<) ([]::nat list) \<and>
    list_all2 (first_from g [] [0..<length ([]::nat list) - 1]) [] [] \<and>
    all_found g [] [0..<length ([]::nat list) - 1] [] []"
    by (simp add: find_alternates_def all_found_def)
  with True show ?thesis by blast
next
  case False
  then have "primary ! 0 \<in> set primary" by simp
  with ids have src: "primary ! 0 < stationCount g" by blast
  have "sorted_wrt (<) [0..<length primary - 1]" by simp
  from alternates_loop_props [OF wf src this, of "[]"]
  obtain new fs where n: "alternates_loop g primary [0..<length primary - 1] [] = Some ([] @ new)"
    "length ([] @ new) \<le> max (length ([]::nat list list)) MAX_ALTERNATES"
    "distinct new" "primary \<notin> set new" "sorted_wrt (<) fs"
    "list_all2 (first_from g primary [0..<length primary - 1]) fs new"
    "all_found g primary [0..<length primary - 1] fs ([] @ new)" by blast
  then have "find_alternates g primary = Some new \<and>
    length new \<le> MAX_ALTERNATES \<and> distinct new \<and> primary \<notin> set new \<and>
    sorted_wrt (<) fs \<and>
    list_all2 (first_from g primary [0..<length primary - 1]) fs new \<and>
    all_found g primary [0..<length primary - 1] fs new" by (simp add: find_alternates_def)
  then show ?thesis by blast
qed

lemma find_alternates_from:
  assumes "list_all2 (first_from g primary es) fs alts" and "a \<in> set alts"
  shows "\<exists>e \<in> set es. blocked_search g primary e = Route a"
proof -
  from assms(2) obtain i where i: "i < length alts" "alts ! i = a" by (auto simp: in_set_conv_nth)
  with assms(1) have "first_from g primary es (fs ! i) a" by (auto simp: list_all2_conv_all_nth)
  then show ?thesis by (auto simp: first_from_def)
qed

text \<open>A path found with one edge blocked is a route of the graph between the same ends.\<close>

lemma blocked_search_route:
  assumes wf: "wf_network g" and ids: "\<forall>a \<in> set primary. a < stationCount g"
    and ne: "primary \<noteq> []"
    and r: "blocked_search g primary e = Route p"
  shows "route_ok g [(primary ! e, primary ! (e + 1))] p \<and> route_ok g [] p \<and>
         hd p = hd primary \<and> last p = last primary"
proof -
  from ne have "primary ! 0 \<in> set primary" by simp
  with ids have src: "primary ! 0 < stationCount g" by blast
  from r have "shortest_path g (primary ! 0) (primary ! (length primary - 1))
       [(primary ! e, primary ! (e + 1))] = Route p" by (simp add: blocked_search_def)
  from shortest_path_route [OF wf src this]
  have p: "route_ok g [(primary ! e, primary ! (e + 1))] p" "hd p = primary ! 0"
    "last p = primary ! (length primary - 1)" by simp_all
  from p(1) have "route_ok g [] p" by (rule route_ok_unblocked)
  with p ne show ?thesis by (simp add: hd_conv_nth last_conv_nth)
qed

text \<open>
  C4. For a primary path of station ids on a network within its bounds,
  \<^verbatim>\<open>find_alternates\<close> returns (it never overruns a buffer) at most three paths, pairwise
  distinct and each distinct from the primary path, each a route of the graph from the
  primary path's first station to its last. They are in the order of the blocked edges
  that produced them: the \<open>i\<close>-th alternate is the result of the search with the edge
  \<open>es ! i\<close> of the primary path blocked and of no earlier edge, and the positions \<open>es\<close>
  increase. None is left out: the result of blocking any edge, when it is a path other
  than the primary one, is among the alternates, unless three were found before that
  edge. So the alternates are the first three distinct results, in the order of the
  edges that first produce them.
\<close>

theorem find_alternates_distinct:
  assumes wf: "wf_network g" and ids: "\<forall>a \<in> set primary. a < stationCount g"
  shows "\<exists>alts es. find_alternates g primary = Some alts \<and>
    length alts \<le> 3 \<and> distinct alts \<and> primary \<notin> set alts \<and>
    (\<forall>a \<in> set alts. route_ok g [] a \<and> hd a = hd primary \<and> last a = last primary) \<and>
    length es = length alts \<and> sorted_wrt (<) es \<and>
    (\<forall>i < length alts.
       es ! i < length primary - 1 \<and>
       blocked_search g primary (es ! i) = Route (alts ! i) \<and>
       (\<forall>e < es ! i. blocked_search g primary e \<noteq> Route (alts ! i))) \<and>
    (\<forall>e < length primary - 1. \<forall>p.
       blocked_search g primary e = Route p \<and> p \<noteq> primary \<longrightarrow>
       p \<in> set alts \<or> (length alts = 3 \<and> last es < e))"
proof -
  let ?n = "length primary - 1"
  from find_alternates_props [OF assms] obtain alts es where
    p: "find_alternates g primary = Some alts" "length alts \<le> MAX_ALTERNATES"
    "distinct alts" "primary \<notin> set alts" "sorted_wrt (<) es"
    "list_all2 (first_from g primary [0..<?n]) es alts"
    "all_found g primary [0..<?n] es alts" by blast
  from p(6) have len: "length es = length alts" by (rule list_all2_lengthD)
  from p(2) have three: "length alts \<le> 3" by (simp add: MAX_ALTERNATES_def)
  have routes: "route_ok g [] a \<and> hd a = hd primary \<and> last a = last primary"
    if a: "a \<in> set alts" for a
  proof -
    from find_alternates_from [OF p(6) a]
    obtain e where e: "e \<in> set [0..<?n]" "blocked_search g primary e = Route a" by blast
    from e(1) have "primary \<noteq> []" by auto
    from blocked_search_route [OF wf ids this e(2)] show ?thesis by simp
  qed
  have order: "es ! i < ?n \<and> blocked_search g primary (es ! i) = Route (alts ! i) \<and>
       (\<forall>e < es ! i. blocked_search g primary e \<noteq> Route (alts ! i))" if i: "i < length alts" for i
  proof -
    from p(6) i have f: "first_from g primary [0..<?n] (es ! i) (alts ! i)"
      by (simp add: list_all2_conv_all_nth)
    then have b: "es ! i < ?n" "blocked_search g primary (es ! i) = Route (alts ! i)"
      by (simp_all add: first_from_def)
    have "blocked_search g primary e \<noteq> Route (alts ! i)" if "e < es ! i" for e
    proof -
      from that b(1) have "e \<in> set [0..<?n]" by simp
      with f that show ?thesis unfolding first_from_def by blast
    qed
    with b show ?thesis by blast
  qed
  have all: "p' \<in> set alts \<or> (length alts = 3 \<and> last es < e)"
    if e: "e < ?n" and r: "blocked_search g primary e = Route p' \<and> p' \<noteq> primary" for e p'
  proof -
    from e have "e \<in> set [0..<?n]" by simp
    with p(7) r have "p' \<in> set alts \<or> (MAX_ALTERNATES \<le> length alts \<and> (es = [] \<or> last es < e))"
      unfolding all_found_def by blast
    then show ?thesis
    proof
      assume "p' \<in> set alts"
      then show ?thesis ..
    next
      assume f: "MAX_ALTERNATES \<le> length alts \<and> (es = [] \<or> last es < e)"
      with three have l: "length alts = 3" by (simp add: MAX_ALTERNATES_def)
      with len have "es \<noteq> []" by auto
      with f l show ?thesis by simp
    qed
  qed
  from p(1) three p(3) p(4) routes len p(5) order all show ?thesis by blast
qed

text \<open>
  C10. When the primary path is a route with the least number of hops between its
  ends, every alternate that \<^verbatim>\<open>find_alternates\<close> returns has at least as many stations,
  that is at least as many hops (one less than the stations).
\<close>

theorem alternates_not_shorter:
  assumes wf: "wf_network g" and ids: "\<forall>a \<in> set primary. a < stationCount g"
    and route: "route_ok g [] primary"
    and least: "\<forall>p. route_ok g [] p \<and> hd p = hd primary \<and> last p = last primary \<longrightarrow>
                  length primary \<le> length p"
  shows "\<exists>alts. find_alternates g primary = Some alts \<and>
    (\<forall>a \<in> set alts. length primary \<le> length a \<and> length primary - 1 \<le> length a - 1)"
proof -
  from find_alternates_props [OF wf ids] obtain alts es where
    p: "find_alternates g primary = Some alts"
    "list_all2 (first_from g primary [0..<length primary - 1]) es alts" by blast
  from route have ne: "primary \<noteq> []" by auto
  have "length primary \<le> length a \<and> length primary - 1 \<le> length a - 1" if a: "a \<in> set alts" for a
  proof -
    from find_alternates_from [OF p(2) a]
    obtain e where e: "blocked_search g primary e = Route a" by blast
    from blocked_search_route [OF wf ids ne e]
    have "route_ok g [] a \<and> hd a = hd primary \<and> last a = last primary" by simp
    with least have "length primary \<le> length a" by blast
    then show ?thesis by simp
  qed
  with p(1) show ?thesis by blast
qed

section \<open>Examples\<close>

text \<open>Five stations: 0-1, 0-2, 1-3, 2-3, 3-4, connected with \<^verbatim>\<open>connect_ids\<close>.\<close>

definition diamond :: network where
  "diamond =
     foldl (\<lambda>g (a, b). connect_ids a b g)
       \<lparr>stations = replicate 5 \<lparr>display_name = [], key_name = [], lines = [], planned = 0\<rparr>,
        adj = (\<lambda>i j. 0)\<rparr>
       [(0, 1), (0, 2), (1, 3), (2, 3), (3, 4)]"

lemma wf_diamond: "wf_network diamond"
  by (auto simp: wf_network_def diamond_def connect_ids_def stationCount_def MAX_STATIONS_def
      split: if_splits)

theorem shortest_path_correct_witness:
  "wf_network diamond \<and> (0::nat) < stationCount diamond \<and>
   shortest_path diamond 0 4 [] = Route [0, 1, 3, 4] \<and>
   route_ok diamond [] [0, 1, 3, 4] \<and>
   route_ok diamond [] [0, 2, 3, 4] \<and>
   ([0, 1, 3, 4], [0, 2, 3, 4]) \<in> lex less_than \<and>
   shortest_path diamond 0 4 [(4, 3)] = NoRoute \<and>
   \<not> route_ok diamond [(4, 3)] [0, 1, 3, 4] \<and>
   shortest_path diamond 0 4 [(0, 1), (0, 2)] = NoRoute \<and>
   \<not> route_ok diamond [(0, 1), (0, 2)] [0, 2, 3, 4] \<and>
   shortest_path diamond 0 4 [(4, 4), (3, 1)] = Route [0, 2, 3, 4] \<and>
   route_ok diamond [(4, 4), (3, 1)] [0, 2, 3, 4]"
proof -
  have s: "(0::nat) < stationCount diamond"
    by (simp add: diamond_def stationCount_def connect_ids_def)
  have r: "shortest_path diamond 0 4 [] = Route [0, 1, 3, 4]" by code_simp
  have n: "shortest_path diamond 0 4 [(4, 3)] = NoRoute" by code_simp
  have n2: "shortest_path diamond 0 4 [(0, 1), (0, 2)] = NoRoute" by code_simp
  have r3: "shortest_path diamond 0 4 [(4, 4), (3, 1)] = Route [0, 2, 3, 4]" by code_simp
  have r2: "route_ok diamond [] [0, 2, 3, 4]" by code_simp
  note t = shortest_path_correct [OF wf_diamond s, of 4 "[]"]
  from t r have r1: "route_ok diamond [] [0, 1, 3, 4]" by blast
  have h: "hd [0, 2, 3, 4] = (0::nat)" "last [0, 2, 3, 4] = (4::nat)"
    "length [0, 1, 3, 4::nat] = length [0, 2, 3, 4::nat]" "[0, 1, 3, 4] \<noteq> [0, 2, 3, 4::nat]"
    by simp_all
  from t r r2 h have l: "([0, 1, 3, 4], [0, 2, 3, 4]) \<in> lex less_than" by blast
  note t' = shortest_path_correct [OF wf_diamond s, of 4 "[(4, 3)]"]
  have h': "hd [0, 1, 3, 4] = (0::nat)" "last [0, 1, 3, 4] = (4::nat)" by simp_all
  from t' n h' have b1: "\<not> route_ok diamond [(4, 3)] [0, 1, 3, 4]" by blast
  note t2 = shortest_path_correct [OF wf_diamond s, of 4 "[(0, 1), (0, 2)]"]
  from t2 n2 h(1,2) have b2: "\<not> route_ok diamond [(0, 1), (0, 2)] [0, 2, 3, 4]" by blast
  note t3 = shortest_path_correct [OF wf_diamond s, of 4 "[(4, 4), (3, 1)]"]
  from t3 r3 have b3: "route_ok diamond [(4, 4), (3, 1)] [0, 2, 3, 4]" by blast
  from wf_diamond s r r1 r2 l n b1 n2 b2 r3 b3 show ?thesis by blast
qed

theorem shortest_path_same_witness:
  "shortest_path diamond 3 3 [(3, 4), (2, 3)] = Route [3]"
  using shortest_path_same [of diamond 3 "[(3, 4), (2, 3)]"] .

text \<open>
  Six stations: the line 0-1-2-3 with the detours 0-4-2 and 1-5-3. Blocking the second
  edge and blocking the third give the same path, which is listed once, after the
  path of the first edge.
\<close>

definition ladder :: network where
  "ladder =
     foldl (\<lambda>g (a, b). connect_ids a b g)
       \<lparr>stations = replicate 6 \<lparr>display_name = [], key_name = [], lines = [], planned = 0\<rparr>,
        adj = (\<lambda>i j. 0)\<rparr>
       [(0, 1), (1, 2), (2, 3), (0, 4), (4, 2), (1, 5), (5, 3)]"

lemma wf_ladder: "wf_network ladder"
  by (auto simp: wf_network_def ladder_def connect_ids_def stationCount_def MAX_STATIONS_def
      split: if_splits)

theorem find_alternates_distinct_witness:
  "wf_network ladder \<and> list_all (\<lambda>a. a < stationCount ladder) [0, 1, 2, 3] \<and>
   find_alternates ladder [0, 1, 2, 3] = Some [[0, 4, 2, 3], [0, 1, 5, 3]] \<and>
   blocked_search ladder [0, 1, 2, 3] 0 = Route [0, 4, 2, 3] \<and>
   blocked_search ladder [0, 1, 2, 3] 1 = Route [0, 1, 5, 3] \<and>
   blocked_search ladder [0, 1, 2, 3] 2 = Route [0, 1, 5, 3] \<and>
   route_ok ladder [] [0, 4, 2, 3] \<and> route_ok ladder [] [0, 1, 5, 3] \<and>
   (\<exists>es. length es = 2 \<and> es ! 0 < es ! 1 \<and>
      blocked_search ladder [0, 1, 2, 3] (es ! 0) = Route [0, 4, 2, 3] \<and>
      blocked_search ladder [0, 1, 2, 3] (es ! 1) = Route [0, 1, 5, 3])"
proof -
  have ids: "\<forall>a \<in> set [0, 1, 2, 3]. a < stationCount ladder"
    by (simp add: ladder_def stationCount_def connect_ids_def)
  have f: "find_alternates ladder [0, 1, 2, 3] = Some [[0, 4, 2, 3], [0, 1, 5, 3]]" by code_simp
  have b: "blocked_search ladder [0, 1, 2, 3] 0 = Route [0, 4, 2, 3]"
    "blocked_search ladder [0, 1, 2, 3] 1 = Route [0, 1, 5, 3]"
    "blocked_search ladder [0, 1, 2, 3] 2 = Route [0, 1, 5, 3]" by code_simp+
  from find_alternates_distinct [OF wf_ladder ids] obtain alts es where
    t: "find_alternates ladder [0, 1, 2, 3] = Some alts"
    "\<forall>a \<in> set alts. route_ok ladder [] a \<and> hd a = hd [0, 1, 2, 3] \<and> last a = last [0, 1, 2, 3]"
    "length es = length alts" "sorted_wrt (<) es"
    "\<forall>i < length alts. es ! i < length [0, 1, 2, 3::nat] - 1 \<and>
       blocked_search ladder [0, 1, 2, 3] (es ! i) = Route (alts ! i) \<and>
       (\<forall>e < es ! i. blocked_search ladder [0, 1, 2, 3] e \<noteq> Route (alts ! i))"
    by blast
  from t(1) f have alts: "alts = [[0, 4, 2, 3], [0, 1, 5, 3]]" by simp
  from t(2) have ro: "route_ok ladder [] [0, 4, 2, 3]" "route_ok ladder [] [0, 1, 5, 3]"
    unfolding alts by simp_all
  from t(3) have l: "length es = 2" unfolding alts by simp
  from t(4) l have o: "es ! 0 < es ! 1" by (simp add: sorted_wrt_iff_nth_less)
  from t(5) [rule_format, of 0] have e0: "blocked_search ladder [0, 1, 2, 3] (es ! 0) = Route [0, 4, 2, 3]"
    unfolding alts by simp
  from t(5) [rule_format, of 1] have e1: "blocked_search ladder [0, 1, 2, 3] (es ! 1) = Route [0, 1, 5, 3]"
    unfolding alts by simp
  from l o e0 e1 have "\<exists>es. length es = 2 \<and> es ! 0 < es ! 1 \<and>
      blocked_search ladder [0, 1, 2, 3] (es ! 0) = Route [0, 4, 2, 3] \<and>
      blocked_search ladder [0, 1, 2, 3] (es ! 1) = Route [0, 1, 5, 3]" by blast
  with wf_ladder ids f b ro show ?thesis by (simp add: list_all_iff)
qed

theorem alternates_not_shorter_witness:
  "wf_network diamond \<and> list_all (\<lambda>a. a < stationCount diamond) [0, 1, 3, 4] \<and>
   route_ok diamond [] [0, 1, 3, 4] \<and>
   find_alternates diamond [0, 1, 3, 4] = Some [[0, 2, 3, 4]] \<and>
   length [0, 1, 3, 4 :: nat] \<le> length [0, 2, 3, 4 :: nat]"
proof -
  have ids: "\<forall>a \<in> set [0, 1, 3, 4]. a < stationCount diamond"
    by (simp add: diamond_def stationCount_def connect_ids_def)
  have s: "(0::nat) < stationCount diamond"
    by (simp add: diamond_def stationCount_def connect_ids_def)
  have route: "route_ok diamond [] [0, 1, 3, 4]" by code_simp
  have r: "shortest_path diamond 0 4 [] = Route [0, 1, 3, 4]" by code_simp
  have least: "\<forall>p. route_ok diamond [] p \<and> hd p = hd [0, 1, 3, 4] \<and> last p = last [0, 1, 3, 4] \<longrightarrow>
                  length [0, 1, 3, 4 :: nat] \<le> length p"
  proof (intro allI impI)
    fix p
    assume p: "route_ok diamond [] p \<and> hd p = hd [0, 1, 3, 4] \<and> last p = last [0, 1, 3, 4]"
    from shortest_path_routes [OF wf_diamond s, of 4 "[]"] r
    have "\<forall>p'. route_ok diamond [] p' \<and> hd p' = 0 \<and> last p' = 4 \<longrightarrow> before_eq [0, 1, 3, 4] p'"
      by simp
    with p have "before_eq [0, 1, 3, 4] p" by simp
    then show "length [0, 1, 3, 4 :: nat] \<le> length p" by (rule before_eq_length)
  qed
  have f: "find_alternates diamond [0, 1, 3, 4] = Some [[0, 2, 3, 4]]" by code_simp
  from alternates_not_shorter [OF wf_diamond ids route least] f
  have "length [0, 1, 3, 4 :: nat] \<le> length [0, 2, 3, 4 :: nat]" by simp
  with wf_diamond ids route f show ?thesis by (simp add: list_all_iff)
qed

end
